theory Spec2Isabelle
  imports Main
begin

section \<open>Data model of \<open>src/node/flow.ts\<close>\<close>

text \<open>
  \<open>FlowResult\<close> is the parsed JSON output of one run of the tool: a list of findings
  (\<open>errors\<close>), each with a \<open>level\<close> and a list of messages (\<open>message\<close>). The fields of
  the source's interfaces keep their names behind a prefix that tells the records apart
  (\<open>fm_\<close> for an entry of \<open>message\<close>, \<open>fe_\<close> for an entry of \<open>errors\<close>, \<open>fr_\<close> for the
  \<open>FlowResult\<close>, \<open>cir_\<close> for a \<open>CodeInspectionResult\<close>, \<open>rep_\<close> for the
  \<open>CodeInspectionReport\<close>). JavaScript numbers that hold line and column numbers are
  integers here.
\<close>

record FlowMessage =
  fm_path :: string
  fm_type :: string
  fm_descr :: string
  fm_line :: int
  fm_start :: int

record FlowError =
  fe_level :: string
  fe_message :: "FlowMessage list"

record FlowResult =
  fr_errors :: "FlowError list"

record Position =
  pos_line :: int
  pos_ch :: int

record CodeInspectionResult =
  cir_type :: string
  cir_message :: string
  cir_pos :: Position

record CodeInspectionReport =
  rep_errors :: "CodeInspectionResult list"

section \<open>The result mapper: \<open>createCodeInspectionReport\<close>\<close>

text \<open>\<open>Array.prototype.join\<close> on an array of strings.\<close>

fun js_join :: "string \<Rightarrow> string list \<Rightarrow> string" where
  "js_join sep [] = []"
| "js_join sep [x] = x"
| "js_join sep (x # y # ys) = x @ sep @ js_join sep (y # ys)"

text \<open>
  The comments of a finding (line 64): the descriptions of its messages whose \<open>type\<close> is
  the string \<open>Comment\<close>.
\<close>

definition comments_of :: "FlowError \<Rightarrow> string list" where
  "comments_of flowError =
     map fm_descr (filter (\<lambda>x. fm_type x = ''Comment'') (fe_message flowError))"

text \<open>
  The body of the inner \<open>forEach\<close> (lines 66 to 83), as a function from the array
  \<open>errors\<close> before the call to the array after it. \<open>path.resolve\<close> belongs to the
  runtime, not to the repository, and is the parameter \<open>resolve\<close>.
\<close>

definition visit_message ::
  "(string \<Rightarrow> string) \<Rightarrow> string \<Rightarrow> FlowError \<Rightarrow> string list \<Rightarrow>
   CodeInspectionResult list \<Rightarrow> FlowMessage \<Rightarrow> CodeInspectionResult list" where
  "visit_message resolve filePath flowError comments errors flowMessage =
     (let isForFilePath = (resolve filePath = resolve (fm_path flowMessage)) in
      if \<not> isForFilePath then errors
      else
        let message = fm_descr flowMessage;
            message = (if length comments > 0
                       then js_join '' '' comments @ '': '' @ message
                       else message)
        in errors @
           [\<lparr> cir_type = (if fe_level flowError = ''error''
                          then ''problem_type_error'' else ''problem_type_warning''),
              cir_message = message,
              cir_pos = \<lparr> pos_line = fm_line flowMessage - 1,
                          pos_ch = fm_start flowMessage - 1 \<rparr> \<rparr>])"

text \<open>The body of the outer \<open>forEach\<close> (lines 62 to 85).\<close>

definition visit_error ::
  "(string \<Rightarrow> string) \<Rightarrow> string \<Rightarrow> CodeInspectionResult list \<Rightarrow> FlowError \<Rightarrow>
   CodeInspectionResult list" where
  "visit_error resolve filePath errors flowError =
     (let comments = comments_of flowError in
      foldl (visit_message resolve filePath flowError comments) errors
        (fe_message flowError))"

definition createCodeInspectionReport ::
  "(string \<Rightarrow> string) \<Rightarrow> string \<Rightarrow> FlowResult \<Rightarrow> CodeInspectionReport" where
  "createCodeInspectionReport resolve filePath flowResult =
     \<lparr> rep_errors = foldl (visit_error resolve filePath) [] (fr_errors flowResult) \<rparr>"

text \<open>
  An instance of \<open>resolve\<close> for the concrete examples below: what \<open>path.resolve\<close> of
  Node.js returns for one argument on a POSIX system whose working directory is \<open>cwd\<close>.
  A relative path is appended to \<open>cwd\<close>; the segments between slashes are then
  normalised (empty segments and \<open>.\<close> dropped, \<open>..\<close> removing the segment before it,
  never going above the root).
\<close>

fun split_on :: "char \<Rightarrow> string \<Rightarrow> string list" where
  "split_on c [] = [[]]"
| "split_on c (x # xs) =
     (if x = c then [] # split_on c xs
      else (case split_on c xs of [] \<Rightarrow> [[x]] | seg # segs \<Rightarrow> (x # seg) # segs))"

fun normalize_segments :: "string list \<Rightarrow> string list \<Rightarrow> string list" where
  "normalize_segments acc [] = rev acc"
| "normalize_segments acc (seg # rest) =
     (if seg = [] \<or> seg = ''.'' then normalize_segments acc rest
      else if seg = ''..'' then normalize_segments (tl acc) rest
      else normalize_segments (seg # acc) rest)"

definition posix_resolve :: "string \<Rightarrow> string \<Rightarrow> string" where
  "posix_resolve cwd p =
     (let full = (if p \<noteq> [] \<and> hd p = CHR ''/'' then p else cwd @ ''/'' @ p)
      in ''/'' @ js_join ''/'' (normalize_segments [] (split_on (CHR ''/'') full)))"

text \<open>
  For stating what the mapper returns: the diagnostic that one message of a finding
  turns into when it is emitted.
\<close>

definition diagnostic_of :: "FlowError \<Rightarrow> FlowMessage \<Rightarrow> CodeInspectionResult" where
  "diagnostic_of flowError flowMessage =
     \<lparr> cir_type = (if fe_level flowError = ''error''
                   then ''problem_type_error'' else ''problem_type_warning''),
       cir_message = (if comments_of flowError = [] then fm_descr flowMessage
                      else js_join '' '' (comments_of flowError) @ '': '' @ fm_descr flowMessage),
       cir_pos = \<lparr> pos_line = fm_line flowMessage - 1, pos_ch = fm_start flowMessage - 1 \<rparr> \<rparr>"

definition is_for :: "(string \<Rightarrow> string) \<Rightarrow> string \<Rightarrow> FlowMessage \<Rightarrow> bool" where
  "is_for resolve filePath flowMessage = (resolve filePath = resolve (fm_path flowMessage))"

section \<open>The command runner: \<open>spawnWrapper\<close>\<close>

text \<open>
  A JavaScript \<open>Error\<close> object, as far as the program looks at it: \<open>scanFileWithFlow\<close>
  reads \<open>err.name\<close>.
\<close>

record js_error =
  err_name :: string
  err_text :: string

text \<open>
  The events a child process emits to the listeners that \<open>spawnWrapper\<close> registers:
  \<open>data\<close> on its standard output, \<open>close\<close> with the exit code, and \<open>error\<close>.
\<close>

datatype child_event = StdoutData string | CloseEvent int | ErrorEvent js_error

text \<open>
  One call of the \<open>callback\<close> given to \<open>spawnWrapper\<close>: \<open>callback(null, text)\<close> is
  \<open>Success text\<close> and \<open>callback(err)\<close> is \<open>Failure err\<close>.
\<close>

datatype callback_args = Success string | Failure js_error

text \<open>
  What \<open>spawnWrapper\<close> leaves behind when it returns: the array \<open>stdout\<close> and the two
  listeners registered with \<open>once\<close>, each of which is removed when it has run.
\<close>

record spawned =
  stdout :: "string list"
  close_once :: bool
  error_once :: bool

definition spawnWrapper :: spawned where
  "spawnWrapper = \<lparr> stdout = [], close_once = True, error_once = True \<rparr>"

text \<open>
  The listeners of lines 44 to 54: the new state of the wrapper and the call of
  \<open>callback\<close> that the event causes, if any. \<open>Buffer.concat(stdout).toString()\<close> is the
  concatenation of the chunks.
\<close>

fun emit :: "child_event \<Rightarrow> spawned \<Rightarrow> spawned \<times> callback_args option" where
  "emit (StdoutData data) c = (c\<lparr> stdout := stdout c @ [data] \<rparr>, None)"
| "emit (CloseEvent code) c =
     (if close_once c then (c\<lparr> close_once := False \<rparr>, Some (Success (concat (stdout c))))
      else (c, None))"
| "emit (ErrorEvent err) c =
     (if error_once c then (c\<lparr> error_once := False \<rparr>, Some (Failure err))
      else (c, None))"

text \<open>The calls of \<open>callback\<close> that a sequence of events causes, in order.\<close>

fun callback_calls :: "child_event list \<Rightarrow> spawned \<Rightarrow> callback_args list" where
  "callback_calls [] c = []"
| "callback_calls (ev # evs) c =
     (case emit ev c of
        (c', None) \<Rightarrow> callback_calls evs c'
      | (c', Some args) \<Rightarrow> args # callback_calls evs c')"

fun is_success :: "callback_args \<Rightarrow> bool" where
  "is_success (Success text) = True"
| "is_success (Failure err) = False"

fun stdout_data :: "child_event list \<Rightarrow> string list" where
  "stdout_data [] = []"
| "stdout_data (StdoutData data # evs) = data # stdout_data evs"
| "stdout_data (ev # evs) = stdout_data evs"

fun is_close :: "child_event \<Rightarrow> bool" where
  "is_close (CloseEvent code) = True"
| "is_close ev = False"

fun is_error :: "child_event \<Rightarrow> bool" where
  "is_error (ErrorEvent err) = True"
| "is_error ev = False"

text \<open>The state of the wrapper after a sequence of events.\<close>

fun after_events :: "child_event list \<Rightarrow> spawned \<Rightarrow> spawned" where
  "after_events [] c = c"
| "after_events (ev # evs) c = after_events evs (fst (emit ev c))"

section \<open>The coalescer: \<open>getFlowResult\<close>\<close>

definition FLOW_TIMEOUT :: nat where
  "FLOW_TIMEOUT = 3000"

text \<open>The outcome a promise is settled with: \<open>resolve(value)\<close> or \<open>reject(err)\<close>.\<close>

datatype settlement = Fulfilled FlowResult | Rejected js_error

text \<open>
  One run of the executor of lines 93 to 123, with the promise chain of lines 124 to
  130 built on it: the variables of its closure (\<open>projectRoot\<close>, \<open>resolved\<close>,
  \<open>timedOut\<close>, \<open>timeoutID\<close>), the child process, every call of \<open>resolve\<close> or \<open>reject\<close>
  made so far (a promise keeps the first and ignores the rest), whether the handlers
  of \<open>.then\<close> and \<open>.catch\<close> have run, and the reactions that callers have attached to
  the promise which \<open>getFlowResult\<close> returned (the number of the caller's callback and
  its \<open>fullPath\<close>). \<open>timeoutID\<close> is \<open>Some ms\<close> while the timer is pending.
\<close>

record invocation =
  inv_root :: string
  inv_child :: spawned
  resolved :: bool
  timedOut :: bool
  timeoutID :: "nat option"
  settle_calls :: "settlement list"
  reacted :: bool
  waiters :: "(nat \<times> string) list"

definition promise_state :: "invocation \<Rightarrow> settlement option" where
  "promise_state iv = (case settle_calls iv of [] \<Rightarrow> None | out # _ \<Rightarrow> Some out)"

definition TimeoutError :: js_error where
  "TimeoutError = \<lparr> err_name = ''TimeoutError'', err_text = [] \<rparr>"

text \<open>The executor: flags cleared, timer armed, child spawned.\<close>

definition start_invocation :: "string \<Rightarrow> invocation" where
  "start_invocation projectRoot =
     \<lparr> inv_root = projectRoot, inv_child = spawnWrapper, resolved = False, timedOut = False,
       timeoutID = Some FLOW_TIMEOUT, settle_calls = [], reacted = False, waiters = [] \<rparr>"

text \<open>The function given to \<open>setTimeout\<close> (lines 100 to 106).\<close>

definition on_timeout :: "invocation \<Rightarrow> invocation" where
  "on_timeout iv =
     (if resolved iv \<or> timedOut iv then iv
      else iv\<lparr> timedOut := True,
                settle_calls := settle_calls iv @ [Rejected TimeoutError] \<rparr>)"

text \<open>
  The callback given to \<open>spawnWrapper\<close> (lines 108 to 122). \<open>JSON.parse\<close> belongs to the
  runtime and is the parameter \<open>parse\<close>: it returns the parsed value or throws.
\<close>

definition on_spawn_callback ::
  "(string \<Rightarrow> js_error + FlowResult) \<Rightarrow> callback_args \<Rightarrow> invocation \<Rightarrow> invocation" where
  "on_spawn_callback parse args iv =
     (if resolved iv \<or> timedOut iv then iv
      else
        let iv' = iv\<lparr> resolved := True, timeoutID := None \<rparr> in
        (case args of
           Failure err \<Rightarrow> iv'\<lparr> settle_calls := settle_calls iv' @ [Rejected err] \<rparr>
         | Success result \<Rightarrow>
             (case parse result of
                Inr v \<Rightarrow> iv'\<lparr> settle_calls := settle_calls iv' @ [Fulfilled v] \<rparr>
              | Inl err \<Rightarrow> iv'\<lparr> settle_calls := settle_calls iv' @ [Rejected err] \<rparr>)))"

text \<open>
  What can happen to a running invocation: its timer elapses, or its child emits an
  event. The event loop runs the function of a timer only while the timer is pending.
\<close>

datatype race_event = Timer | Child child_event

fun race_step ::
  "(string \<Rightarrow> js_error + FlowResult) \<Rightarrow> race_event \<Rightarrow> invocation \<Rightarrow> invocation" where
  "race_step parse Timer iv =
     (case timeoutID iv of
        None \<Rightarrow> iv
      | Some ms \<Rightarrow> on_timeout (iv\<lparr> timeoutID := None \<rparr>))"
| "race_step parse (Child ev) iv =
     (case emit ev (inv_child iv) of
        (c', None) \<Rightarrow> iv\<lparr> inv_child := c' \<rparr>
      | (c', Some args) \<Rightarrow> on_spawn_callback parse args (iv\<lparr> inv_child := c' \<rparr>))"

definition race ::
  "(string \<Rightarrow> js_error + FlowResult) \<Rightarrow> race_event list \<Rightarrow> invocation \<Rightarrow> invocation" where
  "race parse evs iv = foldl (\<lambda>iv ev. race_step parse ev iv) iv evs"

text \<open>
  What the expression \<open>_getFlowResults[key]\<close> can evaluate to, when it is not
  \<open>undefined\<close>: a promise that line 93 stored (promises are numbered by their
  invocations), or a property that the object inherits from \<open>Object.prototype\<close>. The
  table is created as \<open>{}\<close>, an object with that prototype, so the names below read as
  a function or an object from the start, none of which is a promise or has a method
  \<open>then\<close>.
\<close>

datatype table_value = Promise nat | Inherited

definition Object_prototype :: "string list" where
  "Object_prototype =
     [''constructor'', ''__defineGetter__'', ''__defineSetter__'', ''hasOwnProperty'',
      ''__lookupGetter__'', ''__lookupSetter__'', ''isPrototypeOf'', ''propertyIsEnumerable'',
      ''toString'', ''valueOf'', ''__proto__'', ''toLocaleString'']"

text \<open>
  The state of the module: the table \<open>_getFlowResults\<close>, as the value that reading each
  key gives (\<open>None\<close> for \<open>undefined\<close>, whether the key is absent or was set to
  \<open>undefined\<close>), every invocation started so far (a promise is numbered by the position
  of its invocation), every call made so far of a callback given to
  \<open>scanFileWithFlow\<close>, and the number of calls of \<open>scanFileWithFlow\<close> so far: the
  callback of call number \<open>k\<close> is \<open>k\<close>.
\<close>

datatype callback_result = Report CodeInspectionReport | Err js_error

record state =
  getFlowResults :: "string \<Rightarrow> table_value option"
  invocations :: "invocation list"
  callbacks :: "(nat \<times> callback_result) list"
  calls :: nat

definition init :: state where
  "init =
     \<lparr> getFlowResults = (\<lambda>root. if root \<in> set Object_prototype then Some Inherited else None),
       invocations = [], callbacks = [], calls = 0 \<rparr>"

text \<open>
  Line 92 returns whatever the table reads at the key when that is truthy, a promise or
  not. Only a key that reads \<open>undefined\<close> gets an invocation and an assignment, so no
  assignment is ever made at an inherited name.
\<close>

definition getFlowResult :: "string \<Rightarrow> state \<Rightarrow> table_value \<times> state" where
  "getFlowResult projectRoot s =
     (case getFlowResults s projectRoot of
        Some v \<Rightarrow> (v, s)
      | None \<Rightarrow>
          (Promise (length (invocations s)),
           s\<lparr> invocations := invocations s @ [start_invocation projectRoot],
              getFlowResults :=
                (getFlowResults s)(projectRoot \<mapsto> Promise (length (invocations s))) \<rparr>))"

section \<open>The orchestrator: \<open>scanFileWithFlow\<close>\<close>

text \<open>Decimal digits of a number, for the template literal of line 162.\<close>

fun show_nat :: "nat \<Rightarrow> string" where
  "show_nat n =
     (if n < 10 then [''0123456789'' ! n]
      else show_nat (n div 10) @ [''0123456789'' ! (n mod 10)])"

declare show_nat.simps [simp del]

definition no_flow_bin_report :: CodeInspectionReport where
  "no_flow_bin_report =
     \<lparr> rep_errors =
         [\<lparr> cir_type = ''problem_type_error'',
            cir_message =
              ''FlowError: Can't locate node_modules/.bin/flow in your project, please install flow-bin'',
            cir_pos = \<lparr> pos_line = 0, pos_ch = 0 \<rparr> \<rparr>] \<rparr>"

definition timeout_report :: CodeInspectionReport where
  "timeout_report =
     \<lparr> rep_errors =
         [\<lparr> cir_type = ''problem_type_error'',
            cir_message = ''FlowError: Timed out after waiting '' @ show_nat FLOW_TIMEOUT @ ''ms'',
            cir_pos = \<lparr> pos_line = 0, pos_ch = 0 \<rparr> \<rparr>] \<rparr>"

text \<open>
  The handlers of lines 152 to 170: what the caller's callback is called with when the
  promise of \<open>getFlowResult\<close> is settled with \<open>out\<close>.
\<close>

definition report_outcome ::
  "(string \<Rightarrow> string) \<Rightarrow> string \<Rightarrow> settlement \<Rightarrow> callback_result" where
  "report_outcome resolve fullPath out =
     (case out of
        Fulfilled res \<Rightarrow> Report (createCodeInspectionReport resolve fullPath res)
      | Rejected err \<Rightarrow>
          (if err_name err = ''TimeoutError'' then Report timeout_report else Err err))"

text \<open>
  A call of the callback of a caller: the model records the call. The callback is the
  caller's code and may throw instead of returning; \<open>throws callback args\<close> is the
  error that callback number \<open>callback\<close> throws when it is called with \<open>args\<close>, and
  \<open>None\<close> when it returns. It is a parameter, like \<open>resolve\<close> and \<open>parse\<close>.
\<close>

definition call_back :: "nat \<Rightarrow> callback_result \<Rightarrow> state \<Rightarrow> state" where
  "call_back callback args s = s\<lparr> callbacks := callbacks s @ [(callback, args)] \<rparr>"

text \<open>
  The two handlers of lines 152 to 170, run for a promise settled with \<open>out\<close>. The
  handler of \<open>.catch\<close> is chained after the handler of \<open>.then\<close>: it runs when the
  promise is rejected, and also when the promise is fulfilled and the call of the
  callback at line 154 throws, with the error thrown. In both cases it calls the
  callback with \<open>report_outcome\<close> of the rejection. What the callback throws when the
  handler of \<open>.catch\<close> calls it goes nowhere.
\<close>

definition handlers ::
  "(string \<Rightarrow> string) \<Rightarrow> (nat \<Rightarrow> callback_result \<Rightarrow> js_error option) \<Rightarrow>
   nat \<Rightarrow> string \<Rightarrow> settlement \<Rightarrow> state \<Rightarrow> state" where
  "handlers resolve throws callback fullPath out s =
     (case out of
        Fulfilled res \<Rightarrow>
          (case throws callback (report_outcome resolve fullPath (Fulfilled res)) of
             None \<Rightarrow> call_back callback (report_outcome resolve fullPath (Fulfilled res)) s
           | Some err \<Rightarrow>
               call_back callback (report_outcome resolve fullPath (Rejected err))
                 (call_back callback (report_outcome resolve fullPath (Fulfilled res)) s))
      | Rejected err \<Rightarrow> call_back callback (report_outcome resolve fullPath (Rejected err)) s)"

text \<open>
  \<open>promise.then(...).catch(...)\<close> on the promise number \<open>p\<close>: the handlers wait for
  the promise, or run with its outcome when it is settled already.
\<close>

definition attach ::
  "(string \<Rightarrow> string) \<Rightarrow> (nat \<Rightarrow> callback_result \<Rightarrow> js_error option) \<Rightarrow>
   nat \<Rightarrow> nat \<Rightarrow> string \<Rightarrow> state \<Rightarrow> state" where
  "attach resolve throws p callback fullPath s =
     (if p < length (invocations s) then
        let iv = invocations s ! p in
        if reacted iv then
          (case promise_state iv of
             None \<Rightarrow> s
           | Some out \<Rightarrow> handlers resolve throws callback fullPath out s)
        else s\<lparr> invocations :=
                 (invocations s)[p := iv\<lparr> waiters := waiters iv @ [(callback, fullPath)] \<rparr>] \<rparr>
      else s)"

text \<open>
  The error of line 152 when \<open>getFlowResult\<close> has returned an inherited property: the
  value has no method \<open>then\<close>.
\<close>

definition not_a_promise :: js_error where
  "not_a_promise =
     \<lparr> err_name = ''TypeError'', err_text = ''getFlowResult(...).then is not a function'' \<rparr>"

text \<open>
  \<open>hasFlowConfig\<close> and \<open>hasFlowBin\<close> only ask the file system whether a file exists;
  their answers for \<open>projectRoot\<close> at the time of the call are two of the arguments.
  The result is the error that the call throws to its caller, if it throws, and the
  new state. Lines 139 and 143 call the callback directly, so what it throws there
  leaves \<open>scanFileWithFlow\<close>.
\<close>

definition scanFileWithFlow ::
  "(string \<Rightarrow> string) \<Rightarrow> (nat \<Rightarrow> callback_result \<Rightarrow> js_error option) \<Rightarrow>
   bool \<Rightarrow> bool \<Rightarrow> string \<Rightarrow> string \<Rightarrow> nat \<Rightarrow> state \<Rightarrow> js_error option \<times> state" where
  "scanFileWithFlow resolve throws hasFlowConfig hasFlowBin projectRoot fullPath callback s =
     (if \<not> hasFlowConfig then
        (throws callback (Report \<lparr> rep_errors = [] \<rparr>),
         call_back callback (Report \<lparr> rep_errors = [] \<rparr>) s)
      else if \<not> hasFlowBin then
        (throws callback (Report no_flow_bin_report),
         call_back callback (Report no_flow_bin_report) s)
      else
        (case getFlowResult projectRoot s of
           (Promise p, s') \<Rightarrow> (None, attach resolve throws p callback fullPath s')
         | (Inherited, s') \<Rightarrow> (Some not_a_promise, s')))"

text \<open>
  The handlers of lines 124 to 130 run once the promise of the executor is settled:
  they clear the entry of the table and pass the outcome on, which settles the promise
  that \<open>getFlowResult\<close> returned and runs the reactions attached to it, in the order in
  which they were attached.
\<close>

definition react ::
  "(string \<Rightarrow> string) \<Rightarrow> (nat \<Rightarrow> callback_result \<Rightarrow> js_error option) \<Rightarrow>
   nat \<Rightarrow> state \<Rightarrow> state" where
  "react resolve throws p s =
     (if p < length (invocations s) then
        let iv = invocations s ! p in
        (case promise_state iv of
           None \<Rightarrow> s
         | Some out \<Rightarrow>
             if reacted iv then s
             else
               foldl (\<lambda>s (callback, fullPath). handlers resolve throws callback fullPath out s)
                 (s\<lparr> getFlowResults := (getFlowResults s)(inv_root iv := None),
                     invocations := (invocations s)[p := iv\<lparr> reacted := True \<rparr>] \<rparr>)
                 (waiters iv))
      else s)"

section \<open>Runs of the module\<close>

text \<open>
  What happens to the module, one event at a time: a call of \<open>scanFileWithFlow\<close> (with
  the answers of the file system), an event of the race of invocation \<open>p\<close>, or the
  promise handlers of invocation \<open>p\<close> running.
\<close>

datatype event =
  Scan bool bool string string
| Inv nat race_event
| PromiseReacts nat

fun step ::
  "(string \<Rightarrow> string) \<Rightarrow> (string \<Rightarrow> js_error + FlowResult) \<Rightarrow>
   (nat \<Rightarrow> callback_result \<Rightarrow> js_error option) \<Rightarrow> event \<Rightarrow> state \<Rightarrow> state" where
  "step resolve parse throws (Scan hasFlowConfig hasFlowBin projectRoot fullPath) s =
     snd (scanFileWithFlow resolve throws hasFlowConfig hasFlowBin projectRoot fullPath (calls s)
            (s\<lparr> calls := Suc (calls s) \<rparr>))"
| "step resolve parse throws (Inv p ev) s =
     (if p < length (invocations s)
      then s\<lparr> invocations := (invocations s)[p := race_step parse ev (invocations s ! p)] \<rparr>
      else s)"
| "step resolve parse throws (PromiseReacts p) s = react resolve throws p s"

definition run ::
  "(string \<Rightarrow> string) \<Rightarrow> (string \<Rightarrow> js_error + FlowResult) \<Rightarrow>
   (nat \<Rightarrow> callback_result \<Rightarrow> js_error option) \<Rightarrow> event list \<Rightarrow> state \<Rightarrow> state" where
  "run resolve parse throws evs s = foldl (\<lambda>s ev. step resolve parse throws ev s) s evs"

text \<open>
  The callers that join the slot of \<open>key\<close> during a run: the callbacks (numbered from
  \<open>n\<close>) and paths of the calls of \<open>scanFileWithFlow\<close> for \<open>key\<close> that reach
  \<open>getFlowResult\<close>.
\<close>

fun callers_of :: "string \<Rightarrow> nat \<Rightarrow> event list \<Rightarrow> (nat \<times> string) list" where
  "callers_of key n [] = []"
| "callers_of key n (Scan hasFlowConfig hasFlowBin projectRoot fullPath # evs) =
     (if hasFlowConfig \<and> hasFlowBin \<and> projectRoot = key then [(n, fullPath)] else [])
     @ callers_of key (Suc n) evs"
| "callers_of key n (ev # evs) = callers_of key n evs"

text \<open>The callbacks that wait for a promise whose handlers have not run yet.\<close>

definition pending :: "state \<Rightarrow> nat list" where
  "pending s =
     concat (map (\<lambda>iv. if reacted iv then [] else map fst (waiters iv)) (invocations s))"

text \<open>
  The spec's coalescer, in the words of its section 4.2 (\<open>invoke(key, timeoutMs)\<close>: "If
  no slot exists, create one, start a Command Runner invocation, and simultaneously
  start a timer of timeoutMs"), for comparison with \<open>getFlowResult\<close>.
\<close>

definition spec_invoke :: "string \<Rightarrow> nat \<Rightarrow> state \<Rightarrow> table_value \<times> state" where
  "spec_invoke key timeoutMs s =
     (case getFlowResults s key of
        Some v \<Rightarrow> (v, s)
      | None \<Rightarrow>
          (Promise (length (invocations s)),
           s\<lparr> invocations :=
                invocations s @ [(start_invocation key)\<lparr> timeoutID := Some timeoutMs \<rparr>],
              getFlowResults :=
                (getFlowResults s)(key \<mapsto> Promise (length (invocations s))) \<rparr>))"

section \<open>Invariants\<close>

text \<open>
  The flags of an invocation, its timer and the calls of \<open>resolve\<close> and \<open>reject\<close> go
  together: a call was made exactly when one of the flags is set, and that is exactly
  when no timer is pending.
\<close>

definition race_ok :: "invocation \<Rightarrow> bool" where
  "race_ok iv \<longleftrightarrow>
     length (settle_calls iv) = (if resolved iv \<or> timedOut iv then 1 else 0)
     \<and> (resolved iv \<or> timedOut iv \<longrightarrow> timeoutID iv = None)
     \<and> (timeoutID iv = None \<longrightarrow> resolved iv \<or> timedOut iv)"

text \<open>
  The table and the invocations go together: a promise in the table is that of an
  invocation for that key whose handlers have not run, every invocation whose handlers
  have not run is the entry of its key, and the inherited names read as they did at
  the start.
\<close>

definition table_ok :: "state \<Rightarrow> bool" where
  "table_ok s \<longleftrightarrow>
     (\<forall>root p. getFlowResults s root = Some (Promise p) \<longrightarrow>
        p < length (invocations s) \<and> inv_root (invocations s ! p) = root
        \<and> \<not> reacted (invocations s ! p))
     \<and> (\<forall>p < length (invocations s). \<not> reacted (invocations s ! p) \<longrightarrow>
          getFlowResults s (inv_root (invocations s ! p)) = Some (Promise p))
     \<and> (\<forall>root \<in> set Object_prototype. getFlowResults s root = Some Inherited)"

text \<open>
  Every callback handed to \<open>scanFileWithFlow\<close> so far has either been called once, or
  waits, once, for a promise whose handlers have not run.
\<close>

definition once :: "state \<Rightarrow> bool" where
  "once s \<longleftrightarrow>
     (\<forall>cb. count_list (map fst (callbacks s)) cb + count_list (pending s) cb =
        (if cb < calls s then 1 else 0))"

text \<open>
  An instance of \<open>parse\<close> for the concrete examples below: it reads the JSON text of
  a result without findings and throws a \<open>SyntaxError\<close> at any other text.
\<close>

definition sample_parse :: "string \<Rightarrow> js_error + FlowResult" where
  "sample_parse text =
     (if text = ''{\"errors\":[]}'' then Inr \<lparr> fr_errors = [] \<rparr>
      else Inl \<lparr> err_name = ''SyntaxError'', err_text = ''Unexpected end of JSON input'' \<rparr>)"


text \<open>
  Two instances of \<open>throws\<close>: callbacks that return, and callbacks that throw when they
  are handed a report and return when they are handed an error.
\<close>

definition returns :: "nat \<Rightarrow> callback_result \<Rightarrow> js_error option" where
  "returns callback args = None"

definition throws_on_report :: "nat \<Rightarrow> callback_result \<Rightarrow> js_error option" where
  "throws_on_report callback args =
     (case args of
        Report report \<Rightarrow> Some \<lparr> err_name = ''Error'', err_text = ''callback failed'' \<rparr>
      | Err err \<Rightarrow> None)"

text \<open>
  For stating what the handlers of a caller do: the calls of the callback that they
  make for a promise settled with \<open>out\<close>, the first with \<open>report_outcome\<close> of \<open>out\<close>, and
  a second one when \<open>out\<close> is a value and the first call threw.
\<close>

definition handler_calls ::
  "(string \<Rightarrow> string) \<Rightarrow> (nat \<Rightarrow> callback_result \<Rightarrow> js_error option) \<Rightarrow> settlement \<Rightarrow>
   nat \<times> string \<Rightarrow> (nat \<times> callback_result) list" where
  "handler_calls resolve throws out caller =
     (fst caller, report_outcome resolve (snd caller) out) #
     (case out of
        Fulfilled res \<Rightarrow>
          (case throws (fst caller) (report_outcome resolve (snd caller) out) of
             None \<Rightarrow> []
           | Some err \<Rightarrow> [(fst caller, report_outcome resolve (snd caller) (Rejected err))])
      | Rejected err \<Rightarrow> [])"

text \<open>The events of the race of invocation \<open>p\<close> in a run, in order.\<close>

fun inv_events :: "nat \<Rightarrow> event list \<Rightarrow> race_event list" where
  "inv_events p [] = []"
| "inv_events p (Inv q ev # evs) = (if q = p then [ev] else []) @ inv_events p evs"
| "inv_events p (ev # evs) = inv_events p evs"

text \<open>
  A call of \<open>scanFileWithFlow\<close> that does not get as far as line 152 with a project
  root that is an inherited name of the table.
\<close>

fun plain :: "event \<Rightarrow> bool" where
  "plain (Scan hasFlowConfig hasFlowBin projectRoot fullPath) =
     (\<not> (hasFlowConfig \<and> hasFlowBin \<and> projectRoot \<in> set Object_prototype))"
| "plain ev = True"

section \<open>Properties of the result mapper\<close>

lemma visit_messages_eq:
  "foldl (visit_message resolve filePath flowError (comments_of flowError)) errors ms =
     errors @ map (diagnostic_of flowError) (filter (is_for resolve filePath) ms)"
  by (induction ms arbitrary: errors)
     (simp_all add: visit_message_def diagnostic_of_def is_for_def Let_def)

lemma visit_errors_eq:
  "foldl (visit_error resolve filePath) errors fes =
     errors @ concat (map (\<lambda>flowError. map (diagnostic_of flowError)
                  (filter (is_for resolve filePath) (fe_message flowError))) fes)"
  by (induction fes arbitrary: errors) (simp_all add: visit_error_def visit_messages_eq)

lemma report_eq:
  "rep_errors (createCodeInspectionReport resolve filePath flowResult) =
     concat (map (\<lambda>flowError. map (diagnostic_of flowError)
                (filter (is_for resolve filePath) (fe_message flowError)))
             (fr_errors flowResult))"
  by (simp add: createCodeInspectionReport_def visit_errors_eq)

text \<open>
  Claim C4, as amended. For every raw result and target file, the report holds one
  diagnostic for each message whose path resolves to the path of the target file, in
  the order of the result, and no other: the type of a message is not looked at when
  it is emitted, so a message of type \<open>Comment\<close> is itself turned into a diagnostic
  exactly when its path resolves to the target file (the counterexample below). Each
  diagnostic is \<open>diagnostic_of\<close> the finding and the message: the description of the
  message, after the descriptions of all the \<open>Comment\<close> messages of the finding joined
  by a space and followed by a colon and a space, when the finding has any. Hence,
  when no \<open>Comment\<close> message of the result has a path that resolves to the target
  file, as with the comments of the tool, whose path is empty, the diagnostics are
  those of the messages that are not comments, and the comments appear as prefix only.
\<close>

theorem comments_only_prefix:
  "rep_errors (createCodeInspectionReport resolve filePath flowResult) =
     concat (map (\<lambda>fe. map (diagnostic_of fe)
               (filter (\<lambda>m. resolve filePath = resolve (fm_path m)) (fe_message fe)))
             (fr_errors flowResult))
   \<and> ((\<forall>fe \<in> set (fr_errors flowResult). \<forall>c \<in> set (fe_message fe).
          fm_type c = ''Comment'' \<longrightarrow> resolve (fm_path c) \<noteq> resolve filePath)
        \<longrightarrow> rep_errors (createCodeInspectionReport resolve filePath flowResult) =
              concat (map (\<lambda>fe. map (diagnostic_of fe)
                        (filter (\<lambda>m. fm_type m \<noteq> ''Comment''
                                    \<and> resolve filePath = resolve (fm_path m))
                           (fe_message fe)))
                      (fr_errors flowResult)))"
proof (intro conjI impI)
  have eq: "is_for resolve filePath = (\<lambda>m. resolve filePath = resolve (fm_path m))"
    by (auto simp: is_for_def fun_eq_iff)
  show all: "rep_errors (createCodeInspectionReport resolve filePath flowResult) =
     concat (map (\<lambda>fe. map (diagnostic_of fe)
               (filter (\<lambda>m. resolve filePath = resolve (fm_path m)) (fe_message fe)))
             (fr_errors flowResult))"
    by (simp add: report_eq eq)
  assume away: "\<forall>fe \<in> set (fr_errors flowResult). \<forall>c \<in> set (fe_message fe).
          fm_type c = ''Comment'' \<longrightarrow> resolve (fm_path c) \<noteq> resolve filePath"
  have "filter (\<lambda>m. resolve filePath = resolve (fm_path m)) (fe_message fe) =
        filter (\<lambda>m. fm_type m \<noteq> ''Comment'' \<and> resolve filePath = resolve (fm_path m))
          (fe_message fe)"
    if fe: "fe \<in> set (fr_errors flowResult)" for fe
  proof (rule filter_cong [OF refl])
    fix m
    assume "m \<in> set (fe_message fe)"
    with away fe
    have "fm_type m = ''Comment'' \<longrightarrow> resolve (fm_path m) \<noteq> resolve filePath"
      by blast
    then show "(resolve filePath = resolve (fm_path m)) =
               (fm_type m \<noteq> ''Comment'' \<and> resolve filePath = resolve (fm_path m))"
      by metis
  qed
  then show "rep_errors (createCodeInspectionReport resolve filePath flowResult) =
              concat (map (\<lambda>fe. map (diagnostic_of fe)
                        (filter (\<lambda>m. fm_type m \<noteq> ''Comment''
                                    \<and> resolve filePath = resolve (fm_path m))
                           (fe_message fe)))
                      (fr_errors flowResult))"
    by (simp add: all cong: map_cong)
qed

text \<open>
  A finding that mixes a comment of the tool, a comment with the path of the target
  file and an ordinary message: the second and the third are emitted, each after the
  descriptions of both comments. And a finding whose comments are those of the tool:
  only the ordinary message is emitted.
\<close>

theorem comments_only_prefix_witness:
  "rep_errors (createCodeInspectionReport (posix_resolve ''/home/user/project'') ''/a.js''
      \<lparr> fr_errors = [\<lparr> fe_level = ''warning'', fe_message =
         [\<lparr> fm_path = '''', fm_type = ''Comment'', fm_descr = ''Note'', fm_line = 0, fm_start = 1 \<rparr>,
          \<lparr> fm_path = ''/a.js'', fm_type = ''Comment'', fm_descr = ''well'', fm_line = 1, fm_start = 1 \<rparr>,
          \<lparr> fm_path = ''/a.js'', fm_type = ''Blame'', fm_descr = ''x'', fm_line = 2, fm_start = 7 \<rparr>] \<rparr>] \<rparr>)
   = [\<lparr> cir_type = ''problem_type_warning'', cir_message = ''Note well: well'',
        cir_pos = \<lparr> pos_line = 0, pos_ch = 0 \<rparr> \<rparr>,
      \<lparr> cir_type = ''problem_type_warning'', cir_message = ''Note well: x'',
        cir_pos = \<lparr> pos_line = 1, pos_ch = 6 \<rparr> \<rparr>]
   \<and> rep_errors (createCodeInspectionReport (posix_resolve ''/home/user/project'') ''/a.js''
      \<lparr> fr_errors = [\<lparr> fe_level = ''warning'', fe_message =
         [\<lparr> fm_path = '''', fm_type = ''Comment'', fm_descr = ''Note'', fm_line = 0, fm_start = 1 \<rparr>,
          \<lparr> fm_path = ''/a.js'', fm_type = ''Blame'', fm_descr = ''x'', fm_line = 2, fm_start = 7 \<rparr>,
          \<lparr> fm_path = '''', fm_type = ''Comment'', fm_descr = ''well'', fm_line = 0, fm_start = 1 \<rparr>] \<rparr>] \<rparr>)
   = [\<lparr> cir_type = ''problem_type_warning'', cir_message = ''Note well: x'',
        cir_pos = \<lparr> pos_line = 1, pos_ch = 6 \<rparr> \<rparr>]"
  using comments_only_prefix [of "posix_resolve ''/home/user/project''" "''/a.js''"
      "\<lparr> fr_errors = [\<lparr> fe_level = ''warning'', fe_message =
         [\<lparr> fm_path = '''', fm_type = ''Comment'', fm_descr = ''Note'', fm_line = 0, fm_start = 1 \<rparr>,
          \<lparr> fm_path = ''/a.js'', fm_type = ''Comment'', fm_descr = ''well'', fm_line = 1, fm_start = 1 \<rparr>,
          \<lparr> fm_path = ''/a.js'', fm_type = ''Blame'', fm_descr = ''x'', fm_line = 2, fm_start = 7 \<rparr>] \<rparr>] \<rparr>"]
    comments_only_prefix [of "posix_resolve ''/home/user/project''" "''/a.js''"
      "\<lparr> fr_errors = [\<lparr> fe_level = ''warning'', fe_message =
         [\<lparr> fm_path = '''', fm_type = ''Comment'', fm_descr = ''Note'', fm_line = 0, fm_start = 1 \<rparr>,
          \<lparr> fm_path = ''/a.js'', fm_type = ''Blame'', fm_descr = ''x'', fm_line = 2, fm_start = 7 \<rparr>,
          \<lparr> fm_path = '''', fm_type = ''Comment'', fm_descr = ''well'', fm_line = 0, fm_start = 1 \<rparr>] \<rparr>] \<rparr>"]
  by (simp add: posix_resolve_def diagnostic_of_def comments_of_def)

text \<open>
  Claim C4 as stated fails: a finding whose only message has type \<open>Comment\<close> and the
  path of the target file yields a diagnostic for that message, its description
  prefixed by itself.
\<close>

theorem comment_emitted_counterexample:
  "rep_errors (createCodeInspectionReport (posix_resolve ''/home/user/project'') ''/a.js''
      \<lparr> fr_errors = [\<lparr> fe_level = ''error'', fe_message =
         [\<lparr> fm_path = ''/a.js'', fm_type = ''Comment'', fm_descr = ''Foo'',
            fm_line = 1, fm_start = 1 \<rparr>] \<rparr>] \<rparr>)
   = [\<lparr> cir_type = ''problem_type_error'', cir_message = ''Foo: Foo'',
        cir_pos = \<lparr> pos_line = 0, pos_ch = 0 \<rparr> \<rparr>]"
  by (simp add: createCodeInspectionReport_def visit_error_def visit_message_def
        comments_of_def posix_resolve_def)

text \<open>
  Claim C5, as amended. A finding of level \<open>lvl\<close> that holds one message \<open>m\<close> which is
  not a \<open>Comment\<close> and whose path resolves to the target file, among \<open>Comment\<close>
  messages whose paths do not resolve to the target file, yields exactly one
  diagnostic: its type is \<open>problem_type_error\<close> when \<open>lvl\<close> is \<open>error\<close> and
  \<open>problem_type_warning\<close> for every other level; its message is the description of
  \<open>m\<close>, after the descriptions of the comments joined by one space and followed by a
  colon and a space when there is a comment; its position is the line and the start
  of \<open>m\<close>, each less one. The example of the claim is the witness: the comment
  \<open>Foo\<close> with the empty path that the tool gives its comments, and the message
  \<open>bad\<close> at line 5, start 3 of \<open>/a.js\<close>.
\<close>

theorem mapper_round_trip:
  assumes pre: "\<forall>c \<in> set pre. fm_type c = ''Comment'' \<and> resolve (fm_path c) \<noteq> resolve filePath"
      and post: "\<forall>c \<in> set post. fm_type c = ''Comment'' \<and> resolve (fm_path c) \<noteq> resolve filePath"
      and ordinary: "fm_type m \<noteq> ''Comment''"
      and target: "resolve (fm_path m) = resolve filePath"
  shows "createCodeInspectionReport resolve filePath
           \<lparr> fr_errors = [\<lparr> fe_level = lvl, fe_message = pre @ m # post \<rparr>] \<rparr> =
         \<lparr> rep_errors =
             [\<lparr> cir_type = (if lvl = ''error'' then ''problem_type_error''
                             else ''problem_type_warning''),
                cir_message = (if pre @ post = [] then fm_descr m
                               else js_join '' '' (map fm_descr (pre @ post)) @ '': '' @ fm_descr m),
                cir_pos = \<lparr> pos_line = fm_line m - 1, pos_ch = fm_start m - 1 \<rparr> \<rparr>] \<rparr>"
proof -
  let ?fe = "\<lparr> fe_level = lvl, fe_message = pre @ m # post \<rparr>"
  have fpre: "filter (is_for resolve filePath) pre = []"
    using pre by (auto simp: filter_empty_conv is_for_def)
  have fpost: "filter (is_for resolve filePath) post = []"
    using post by (auto simp: filter_empty_conv is_for_def)
  have cpre: "filter (\<lambda>x. fm_type x = ''Comment'') pre = pre"
    using pre by (auto simp: filter_id_conv)
  have cpost: "filter (\<lambda>x. fm_type x = ''Comment'') post = post"
    using post by (auto simp: filter_id_conv)
  have comments: "comments_of ?fe = map fm_descr (pre @ post)"
    using ordinary by (simp add: comments_of_def cpre cpost)
  have emitted: "filter (is_for resolve filePath) (fe_message ?fe) = [m]"
    using target by (simp add: fpre fpost is_for_def)
  have "rep_errors (createCodeInspectionReport resolve filePath \<lparr> fr_errors = [?fe] \<rparr>) =
        [diagnostic_of ?fe m]"
    using emitted by (simp add: report_eq)
  then show ?thesis
    by (cases "createCodeInspectionReport resolve filePath \<lparr> fr_errors = [?fe] \<rparr>")
       (simp add: diagnostic_of_def comments)
qed

theorem mapper_round_trip_witness:
  "createCodeInspectionReport (posix_resolve ''/home/user/project'') ''/a.js''
      \<lparr> fr_errors = [\<lparr> fe_level = ''error'', fe_message =
         [\<lparr> fm_path = '''', fm_type = ''Comment'', fm_descr = ''Foo'', fm_line = 0, fm_start = 1 \<rparr>,
          \<lparr> fm_path = ''/a.js'', fm_type = ''Blame'', fm_descr = ''bad'', fm_line = 5, fm_start = 3 \<rparr>] \<rparr>] \<rparr>
   = \<lparr> rep_errors = [\<lparr> cir_type = ''problem_type_error'', cir_message = ''Foo: bad'',
        cir_pos = \<lparr> pos_line = 4, pos_ch = 2 \<rparr> \<rparr>] \<rparr>"
  using mapper_round_trip [of
      "[\<lparr> fm_path = '''', fm_type = ''Comment'', fm_descr = ''Foo'', fm_line = 0, fm_start = 1 \<rparr>]"
      "posix_resolve ''/home/user/project''" "''/a.js''" "[]"
      "\<lparr> fm_path = ''/a.js'', fm_type = ''Blame'', fm_descr = ''bad'', fm_line = 5, fm_start = 3 \<rparr>"
      "''error''"]
  by (simp add: posix_resolve_def)

text \<open>
  Claim C5 as stated fixes only the description of the comment message. When the
  comment message carries the path of the target file, the same finding yields two
  diagnostics, the first of them for the comment, and not the one of the claim.
\<close>

theorem mapper_round_trip_counterexample:
  "createCodeInspectionReport (posix_resolve ''/home/user/project'') ''/a.js''
      \<lparr> fr_errors = [\<lparr> fe_level = ''error'', fe_message =
         [\<lparr> fm_path = ''/a.js'', fm_type = ''Comment'', fm_descr = ''Foo'', fm_line = 5, fm_start = 1 \<rparr>,
          \<lparr> fm_path = ''/a.js'', fm_type = ''Blame'', fm_descr = ''bad'', fm_line = 5, fm_start = 3 \<rparr>] \<rparr>] \<rparr>
   = \<lparr> rep_errors =
        [\<lparr> cir_type = ''problem_type_error'', cir_message = ''Foo: Foo'',
           cir_pos = \<lparr> pos_line = 4, pos_ch = 0 \<rparr> \<rparr>,
         \<lparr> cir_type = ''problem_type_error'', cir_message = ''Foo: bad'',
           cir_pos = \<lparr> pos_line = 4, pos_ch = 2 \<rparr> \<rparr>] \<rparr>
   \<and> createCodeInspectionReport (posix_resolve ''/home/user/project'') ''/a.js''
      \<lparr> fr_errors = [\<lparr> fe_level = ''error'', fe_message =
         [\<lparr> fm_path = ''/a.js'', fm_type = ''Comment'', fm_descr = ''Foo'', fm_line = 5, fm_start = 1 \<rparr>,
          \<lparr> fm_path = ''/a.js'', fm_type = ''Blame'', fm_descr = ''bad'', fm_line = 5, fm_start = 3 \<rparr>] \<rparr>] \<rparr>
   \<noteq> \<lparr> rep_errors = [\<lparr> cir_type = ''problem_type_error'', cir_message = ''Foo: bad'',
        cir_pos = \<lparr> pos_line = 4, pos_ch = 2 \<rparr> \<rparr>] \<rparr>"
  by (simp add: createCodeInspectionReport_def visit_error_def visit_message_def
        comments_of_def posix_resolve_def)

text \<open>
  Claim C6. A message whose resolved path differs from the resolved path of the target
  file is left out of the report: the report holds as many diagnostics as the result
  holds messages whose path resolves to that of the target file; every diagnostic of
  the report is the diagnostic of such a message; and a result none of whose messages
  is for the target file, such as one whose messages are all for \<open>/b.js\<close> when the
  report is requested for \<open>/a.js\<close>, gives the empty report. (The path decides which
  messages become diagnostics; the prefix inside \<open>diagnostic_of\<close> is made of the
  descriptions of all the \<open>Comment\<close> messages of the finding, whatever their paths.)
\<close>

theorem other_files_excluded:
  "length (rep_errors (createCodeInspectionReport resolve filePath flowResult)) =
     sum_list (map (\<lambda>fe. length (filter (\<lambda>m. resolve (fm_path m) = resolve filePath)
                                   (fe_message fe))) (fr_errors flowResult))
   \<and> (\<forall>d \<in> set (rep_errors (createCodeInspectionReport resolve filePath flowResult)).
        \<exists>fe \<in> set (fr_errors flowResult). \<exists>m \<in> set (fe_message fe).
           resolve (fm_path m) = resolve filePath \<and> d = diagnostic_of fe m)
   \<and> ((\<forall>fe \<in> set (fr_errors flowResult). \<forall>m \<in> set (fe_message fe).
          resolve (fm_path m) \<noteq> resolve filePath)
        \<longrightarrow> createCodeInspectionReport resolve filePath flowResult = \<lparr> rep_errors = [] \<rparr>)"
proof (intro conjI)
  have eq: "is_for resolve filePath = (\<lambda>m. resolve (fm_path m) = resolve filePath)"
    by (auto simp: is_for_def fun_eq_iff)
  show "length (rep_errors (createCodeInspectionReport resolve filePath flowResult)) =
     sum_list (map (\<lambda>fe. length (filter (\<lambda>m. resolve (fm_path m) = resolve filePath)
                                   (fe_message fe))) (fr_errors flowResult))"
    by (simp add: report_eq eq length_concat comp_def)
  show "\<forall>d \<in> set (rep_errors (createCodeInspectionReport resolve filePath flowResult)).
        \<exists>fe \<in> set (fr_errors flowResult). \<exists>m \<in> set (fe_message fe).
           resolve (fm_path m) = resolve filePath \<and> d = diagnostic_of fe m"
    by (auto simp: report_eq eq)
  show "(\<forall>fe \<in> set (fr_errors flowResult). \<forall>m \<in> set (fe_message fe).
          resolve (fm_path m) \<noteq> resolve filePath)
        \<longrightarrow> createCodeInspectionReport resolve filePath flowResult = \<lparr> rep_errors = [] \<rparr>"
  proof
    assume h: "\<forall>fe \<in> set (fr_errors flowResult). \<forall>m \<in> set (fe_message fe).
          resolve (fm_path m) \<noteq> resolve filePath"
    have "filter (is_for resolve filePath) (fe_message fe) = []"
      if "fe \<in> set (fr_errors flowResult)" for fe
      using h that by (auto simp: eq filter_empty_conv)
    then have "rep_errors (createCodeInspectionReport resolve filePath flowResult) = []"
      by (simp add: report_eq)
    then show "createCodeInspectionReport resolve filePath flowResult = \<lparr> rep_errors = [] \<rparr>"
      by (cases "createCodeInspectionReport resolve filePath flowResult") simp
  qed
qed

theorem other_files_excluded_witness:
  "createCodeInspectionReport (posix_resolve ''/home/user/project'') ''/a.js''
      \<lparr> fr_errors = [\<lparr> fe_level = ''error'', fe_message =
         [\<lparr> fm_path = ''/b.js'', fm_type = ''Blame'', fm_descr = ''bad'', fm_line = 5, fm_start = 3 \<rparr>] \<rparr>] \<rparr>
   = \<lparr> rep_errors = [] \<rparr>"
  using other_files_excluded [of "posix_resolve ''/home/user/project''" "''/a.js''"
      "\<lparr> fr_errors = [\<lparr> fe_level = ''error'', fe_message =
         [\<lparr> fm_path = ''/b.js'', fm_type = ''Blame'', fm_descr = ''bad'', fm_line = 5, fm_start = 3 \<rparr>] \<rparr>] \<rparr>"]
  by (simp add: posix_resolve_def)

section \<open>Properties of the command runner\<close>

lemma success_calls_le:
  "length (filter is_success (callback_calls evs c)) \<le> (if close_once c then 1 else 0)"
proof (induction evs arbitrary: c)
  case Nil
  show ?case by simp
next
  case (Cons ev evs)
  show ?case
  proof (cases ev)
    case (StdoutData data)
    with Cons [of "c\<lparr> stdout := stdout c @ [data] \<rparr>"] show ?thesis by (auto split: if_splits)
  next
    case (CloseEvent code)
    with Cons [of c] Cons [of "c\<lparr> close_once := False \<rparr>"] show ?thesis by (auto split: if_splits)
  next
    case (ErrorEvent err)
    with Cons [of c] Cons [of "c\<lparr> error_once := False \<rparr>"] show ?thesis by (auto split: if_splits)
  qed
qed

lemma failure_calls_le:
  "length (filter (\<lambda>a. \<not> is_success a) (callback_calls evs c)) \<le> (if error_once c then 1 else 0)"
proof (induction evs arbitrary: c)
  case Nil
  show ?case by simp
next
  case (Cons ev evs)
  show ?case
  proof (cases ev)
    case (StdoutData data)
    with Cons [of "c\<lparr> stdout := stdout c @ [data] \<rparr>"] show ?thesis by (auto split: if_splits)
  next
    case (CloseEvent code)
    with Cons [of c] Cons [of "c\<lparr> close_once := False \<rparr>"] show ?thesis by (auto split: if_splits)
  next
    case (ErrorEvent err)
    with Cons [of c] Cons [of "c\<lparr> error_once := False \<rparr>"] show ?thesis by (auto split: if_splits)
  qed
qed

lemma no_success_after_close:
  "\<not> close_once c \<Longrightarrow> filter is_success (callback_calls evs c) = []"
  using success_calls_le [of evs c] by simp

lemma first_close_delivers_stdout:
  "\<not> list_ex is_close pre \<Longrightarrow> close_once c \<Longrightarrow>
   filter is_success (callback_calls (pre @ CloseEvent code # post) c) =
     [Success (concat (stdout c @ stdout_data pre))]"
proof (induction pre arbitrary: c)
  case Nil
  then show ?case by (simp add: no_success_after_close)
next
  case (Cons ev pre)
  show ?case
  proof (cases ev)
    case (StdoutData data)
    with Cons.prems Cons.IH [of "c\<lparr> stdout := stdout c @ [data] \<rparr>"] show ?thesis by simp
  next
    case (CloseEvent code')
    with Cons.prems show ?thesis by simp
  next
    case (ErrorEvent err)
    with Cons.prems Cons.IH [of c] Cons.IH [of "c\<lparr> error_once := False \<rparr>"] show ?thesis by simp
  qed
qed

lemma no_failure_after_error:
  "\<not> error_once c \<Longrightarrow> filter (\<lambda>a. \<not> is_success a) (callback_calls evs c) = []"
  using failure_calls_le [of evs c] by simp

lemma first_error_delivers:
  "\<not> list_ex is_error pre \<Longrightarrow> error_once c \<Longrightarrow>
   filter (\<lambda>a. \<not> is_success a) (callback_calls (pre @ ErrorEvent err # post) c) =
     [Failure err]"
proof (induction pre arbitrary: c)
  case Nil
  then show ?case by (simp add: no_failure_after_error)
next
  case (Cons ev pre)
  show ?case
  proof (cases ev)
    case (StdoutData data)
    with Cons.prems Cons.IH [of "c\<lparr> stdout := stdout c @ [data] \<rparr>"] show ?thesis by simp
  next
    case (CloseEvent code')
    with Cons.prems Cons.IH [of c] Cons.IH [of "c\<lparr> close_once := False \<rparr>"] show ?thesis by simp
  next
    case (ErrorEvent err')
    with Cons.prems show ?thesis by simp
  qed
qed

lemma after_events_eq:
  "after_events evs c =
     \<lparr> stdout = stdout c @ stdout_data evs,
       close_once = (close_once c \<and> \<not> list_ex is_close evs),
       error_once = (error_once c \<and> \<not> list_ex is_error evs) \<rparr>"
proof (induction evs arbitrary: c)
  case Nil
  show ?case by simp
next
  case (Cons ev evs)
  show ?case by (cases ev) (simp_all add: Cons)
qed

lemma callback_calls_append:
  "callback_calls (xs @ ys) c = callback_calls xs c @ callback_calls ys (after_events xs c)"
proof (induction xs arbitrary: c)
  case Nil
  show ?case by simp
next
  case (Cons ev xs)
  show ?case by (cases ev) (simp_all add: Cons)
qed

lemma callback_calls_quiet:
  "\<not> (close_once c \<and> list_ex is_close evs) \<Longrightarrow>
   \<not> (error_once c \<and> list_ex is_error evs) \<Longrightarrow>
   callback_calls evs c = []"
proof (induction evs arbitrary: c)
  case Nil
  show ?case by simp
next
  case (Cons ev evs)
  show ?case
  proof (cases ev)
    case (StdoutData data)
    with Cons.prems Cons.IH [of "c\<lparr> stdout := stdout c @ [data] \<rparr>"] show ?thesis by simp
  next
    case (CloseEvent code)
    with Cons.prems Cons.IH [of c] show ?thesis by simp
  next
    case (ErrorEvent err)
    with Cons.prems Cons.IH [of c] show ?thesis by simp
  qed
qed

text \<open>
  Claim C7, as amended. \<open>spawnWrapper\<close> registers one listener for \<open>close\<close> and one for
  \<open>error\<close>, each with \<open>once\<close>, and neither looks at the other; it is the callback of
  \<open>getFlowResult\<close> that ignores a second call. Over any sequence of events the
  callback is called at most once with a text and at most once with an error. What it
  is called with, case by case: nothing, while the child has neither closed nor
  failed; the concatenation of all the chunks of data that arrived before the first
  \<open>close\<close>, when the child closes and never fails; the error of the first \<open>error\<close>,
  when the child fails and never closes; and both, in the order of the two events,
  when the child emits both, as a child that could not be spawned does.
\<close>

theorem runner_callbacks:
  "length (filter is_success (callback_calls evs spawnWrapper)) \<le> 1
   \<and> length (filter (\<lambda>a. \<not> is_success a) (callback_calls evs spawnWrapper)) \<le> 1
   \<and> (\<not> list_ex is_close pre \<longrightarrow>
        filter is_success (callback_calls (pre @ CloseEvent code # post) spawnWrapper) =
          [Success (concat (stdout_data pre))])
   \<and> (\<not> list_ex is_error pre \<longrightarrow>
        filter (\<lambda>a. \<not> is_success a)
          (callback_calls (pre @ ErrorEvent err # post) spawnWrapper) = [Failure err])
   \<and> (\<not> list_ex is_close evs \<and> \<not> list_ex is_error evs \<longrightarrow>
        callback_calls evs spawnWrapper = [])
   \<and> (\<not> list_ex is_close pre \<and> \<not> list_ex is_error pre \<and> \<not> list_ex is_error post \<longrightarrow>
        callback_calls (pre @ CloseEvent code # post) spawnWrapper =
          [Success (concat (stdout_data pre))])
   \<and> (\<not> list_ex is_close pre \<and> \<not> list_ex is_error pre \<and> \<not> list_ex is_close post \<longrightarrow>
        callback_calls (pre @ ErrorEvent err # post) spawnWrapper = [Failure err])
   \<and> (\<not> list_ex is_close pre \<and> \<not> list_ex is_error pre \<and> \<not> list_ex is_close mid \<longrightarrow>
        callback_calls (pre @ ErrorEvent err # mid @ CloseEvent code # post) spawnWrapper =
          [Failure err, Success (concat (stdout_data pre @ stdout_data mid))])
   \<and> (\<not> list_ex is_close pre \<and> \<not> list_ex is_error pre \<and> \<not> list_ex is_error mid \<longrightarrow>
        callback_calls (pre @ CloseEvent code # mid @ ErrorEvent err # post) spawnWrapper =
          [Success (concat (stdout_data pre)), Failure err])"
proof (intro conjI impI)
  show "length (filter is_success (callback_calls evs spawnWrapper)) \<le> 1"
    using success_calls_le [of evs spawnWrapper] by (simp split: if_splits)
  show "length (filter (\<lambda>a. \<not> is_success a) (callback_calls evs spawnWrapper)) \<le> 1"
    using failure_calls_le [of evs spawnWrapper] by (simp split: if_splits)
next
  assume "\<not> list_ex is_close pre"
  then show "filter is_success (callback_calls (pre @ CloseEvent code # post) spawnWrapper) =
          [Success (concat (stdout_data pre))]"
    using first_close_delivers_stdout [of pre spawnWrapper code post]
    by (simp add: spawnWrapper_def)
next
  assume "\<not> list_ex is_error pre"
  then show "filter (\<lambda>a. \<not> is_success a)
          (callback_calls (pre @ ErrorEvent err # post) spawnWrapper) = [Failure err]"
    using first_error_delivers [of pre spawnWrapper err post]
    by (simp add: spawnWrapper_def)
next
  assume "\<not> list_ex is_close evs \<and> \<not> list_ex is_error evs"
  then show "callback_calls evs spawnWrapper = []"
    by (simp add: callback_calls_quiet)
next
  assume "\<not> list_ex is_close pre \<and> \<not> list_ex is_error pre \<and> \<not> list_ex is_error post"
  then show "callback_calls (pre @ CloseEvent code # post) spawnWrapper =
          [Success (concat (stdout_data pre))]"
    by (simp add: callback_calls_append callback_calls_quiet after_events_eq spawnWrapper_def)
next
  assume "\<not> list_ex is_close pre \<and> \<not> list_ex is_error pre \<and> \<not> list_ex is_close post"
  then show "callback_calls (pre @ ErrorEvent err # post) spawnWrapper = [Failure err]"
    by (simp add: callback_calls_append callback_calls_quiet after_events_eq spawnWrapper_def)
next
  assume "\<not> list_ex is_close pre \<and> \<not> list_ex is_error pre \<and> \<not> list_ex is_close mid"
  then show "callback_calls (pre @ ErrorEvent err # mid @ CloseEvent code # post) spawnWrapper =
          [Failure err, Success (concat (stdout_data pre @ stdout_data mid))]"
    by (simp add: callback_calls_append callback_calls_quiet after_events_eq spawnWrapper_def)
next
  assume "\<not> list_ex is_close pre \<and> \<not> list_ex is_error pre \<and> \<not> list_ex is_error mid"
  then show "callback_calls (pre @ CloseEvent code # mid @ ErrorEvent err # post) spawnWrapper =
          [Success (concat (stdout_data pre)), Failure err]"
    by (simp add: callback_calls_append callback_calls_quiet after_events_eq spawnWrapper_def)
qed

text \<open>
  Output in two chunks and a close; and a child that fails, writes nothing and
  closes.
\<close>

theorem runner_callbacks_witness:
  "callback_calls [StdoutData ''{\"errors\"'', StdoutData '':[]}'', CloseEvent 0] spawnWrapper =
     [Success ''{\"errors\":[]}'']
   \<and> callback_calls
        [ErrorEvent \<lparr> err_name = ''Error'', err_text = ''spawn flow EACCES'' \<rparr>, CloseEvent (- 13)]
        spawnWrapper =
     [Failure \<lparr> err_name = ''Error'', err_text = ''spawn flow EACCES'' \<rparr>, Success []]"
  using runner_callbacks [where pre = "[StdoutData ''{\"errors\"'', StdoutData '':[]}'']"
      and code = 0 and post = "[]"]
    runner_callbacks [where pre = "[]" and mid = "[]" and post = "[]" and code = "- 13"
      and err = "\<lparr> err_name = ''Error'', err_text = ''spawn flow EACCES'' \<rparr>"]
  by simp

text \<open>
  Claim C7 as stated fails: for a child that emits \<open>error\<close> and then \<open>close\<close>, the
  callback is called with the error and then with the empty text.
\<close>

theorem runner_both_counterexample:
  "callback_calls
     [ErrorEvent \<lparr> err_name = ''Error'', err_text = ''spawn flow ENOENT'' \<rparr>, CloseEvent (- 2)]
     spawnWrapper =
   [Failure \<lparr> err_name = ''Error'', err_text = ''spawn flow ENOENT'' \<rparr>, Success []]"
  by (simp add: spawnWrapper_def)

section \<open>Properties of the race between the timer and the child\<close>

lemma race_Nil [simp]: "race parse [] iv = iv"
  by (simp add: race_def)

lemma race_Cons [simp]: "race parse (ev # evs) iv = race parse evs (race_step parse ev iv)"
  by (simp add: race_def)

lemma race_append: "race parse (xs @ ys) iv = race parse ys (race parse xs iv)"
  by (simp add: race_def)

lemma race_ok_start: "race_ok (start_invocation root)"
  by (simp add: race_ok_def start_invocation_def)

lemma race_ok_step: "race_ok iv \<Longrightarrow> race_ok (race_step parse ev iv)"
proof (cases ev)
  case Timer
  assume "race_ok iv"
  with Timer show ?thesis
    by (auto simp: race_ok_def on_timeout_def split: option.splits)
next
  case (Child cev)
  assume "race_ok iv"
  with Child show ?thesis
    by (cases cev)
       (auto simp: race_ok_def on_spawn_callback_def Let_def split: sum.splits)
qed

lemma race_ok_race: "race_ok iv \<Longrightarrow> race_ok (race parse evs iv)"
  by (induction evs arbitrary: iv) (simp_all add: race_ok_step)

lemma settled_step:
  "race_ok iv \<Longrightarrow> resolved iv \<or> timedOut iv \<Longrightarrow>
   settle_calls (race_step parse ev iv) = settle_calls iv
   \<and> (resolved (race_step parse ev iv) \<or> timedOut (race_step parse ev iv))"
proof (cases ev)
  case Timer
  assume "race_ok iv" "resolved iv \<or> timedOut iv"
  with Timer show ?thesis
    by (auto simp: race_ok_def on_timeout_def split: option.splits)
next
  case (Child cev)
  assume "race_ok iv" "resolved iv \<or> timedOut iv"
  with Child show ?thesis
    by (cases cev) (auto simp: on_spawn_callback_def)
qed

lemma settled_race:
  "race_ok iv \<Longrightarrow> resolved iv \<or> timedOut iv \<Longrightarrow>
   settle_calls (race parse evs iv) = settle_calls iv"
proof (induction evs arbitrary: iv)
  case Nil
  show ?case by simp
next
  case (Cons ev evs)
  from settled_step [OF Cons.prems, of parse ev] race_ok_step [OF Cons.prems(1), of parse ev]
  show ?case using Cons.IH [of "race_step parse ev iv"] by simp
qed

lemma race_data:
  "race parse (map (\<lambda>d. Child (StdoutData d)) chunks) iv =
     iv\<lparr> inv_child := (inv_child iv)\<lparr> stdout := stdout (inv_child iv) @ chunks \<rparr> \<rparr>"
  by (induction chunks arbitrary: iv) simp_all

lemma winner_stays:
  assumes "race_ok iv" and "race_step parse ev iv = iv1" and "resolved iv1 \<or> timedOut iv1"
      and "race parse pre (start_invocation root) = iv"
  shows "settle_calls (race parse (pre @ ev # evs) (start_invocation root)) = settle_calls iv1"
  using settled_race [of iv1 parse evs] race_ok_step [OF assms(1), of parse ev] assms(2,3,4)
  by (simp add: race_append)

text \<open>
  Claim C2. Whatever the timer and the child do and in whatever order, \<open>resolve\<close> and
  \<open>reject\<close> are called at most once in all. When the timer elapses first (only data
  has arrived before it), the one call is the \<open>reject\<close> with the \<open>TimeoutError\<close>, and no
  later \<open>close\<close> or \<open>error\<close> of the child adds a call. When the child closes or fails
  first, the timer is cleared, the one call is the outcome of the child (the parsed
  output, the error of the parser, or the error of the child), and nothing that
  follows, the timer included, adds a call.
\<close>

theorem race_has_one_winner:
  "length (settle_calls (race parse evs (start_invocation root))) \<le> 1
   \<and> settle_calls (race parse (map (\<lambda>d. Child (StdoutData d)) chunks @ Timer # evs)
         (start_invocation root)) = [Rejected TimeoutError]
   \<and> timeoutID (race parse (map (\<lambda>d. Child (StdoutData d)) chunks @ [Child (CloseEvent code)])
         (start_invocation root)) = None
   \<and> settle_calls (race parse (map (\<lambda>d. Child (StdoutData d)) chunks @ Child (CloseEvent code) # evs)
         (start_invocation root)) =
       [case parse (concat chunks) of Inr v \<Rightarrow> Fulfilled v | Inl err \<Rightarrow> Rejected err]
   \<and> timeoutID (race parse (map (\<lambda>d. Child (StdoutData d)) chunks @ [Child (ErrorEvent err)])
         (start_invocation root)) = None
   \<and> settle_calls (race parse (map (\<lambda>d. Child (StdoutData d)) chunks @ Child (ErrorEvent err) # evs)
         (start_invocation root)) = [Rejected err]"
proof (intro conjI)
  let ?data = "map (\<lambda>d. Child (StdoutData d)) chunks"
  let ?iv = "race parse ?data (start_invocation root)"
  have iv: "?iv = (start_invocation root)\<lparr> inv_child := spawnWrapper\<lparr> stdout := chunks \<rparr> \<rparr>"
    by (simp add: race_data start_invocation_def spawnWrapper_def)
  have ok: "race_ok ?iv"
    by (rule race_ok_race [OF race_ok_start])
  show "length (settle_calls (race parse evs (start_invocation root))) \<le> 1"
    using race_ok_race [OF race_ok_start, of parse evs root]
    by (simp add: race_ok_def split: if_splits)
  have timer: "race_step parse Timer ?iv =
      ?iv\<lparr> timeoutID := None, timedOut := True, settle_calls := [Rejected TimeoutError] \<rparr>"
    by (simp only: iv) (simp add: start_invocation_def on_timeout_def)
  show "settle_calls (race parse (?data @ Timer # evs) (start_invocation root)) =
          [Rejected TimeoutError]"
    using winner_stays [OF ok timer _ refl, of evs] by simp
  have close: "race_step parse (Child (CloseEvent code)) ?iv =
      ?iv\<lparr> inv_child := spawnWrapper\<lparr> stdout := chunks, close_once := False \<rparr>,
            resolved := True, timeoutID := None,
            settle_calls := [case parse (concat chunks) of Inr v \<Rightarrow> Fulfilled v
                             | Inl err \<Rightarrow> Rejected err] \<rparr>"
    by (simp only: iv)
       (simp add: start_invocation_def spawnWrapper_def on_spawn_callback_def Let_def
          split: sum.splits)
  show "timeoutID (race parse (?data @ [Child (CloseEvent code)]) (start_invocation root)) = None"
    by (simp only: race_append race_Cons race_Nil close) simp
  show "settle_calls (race parse (?data @ Child (CloseEvent code) # evs) (start_invocation root)) =
          [case parse (concat chunks) of Inr v \<Rightarrow> Fulfilled v | Inl err \<Rightarrow> Rejected err]"
    using winner_stays [OF ok close _ refl, of evs] by simp
  have error: "race_step parse (Child (ErrorEvent err)) ?iv =
      ?iv\<lparr> inv_child := spawnWrapper\<lparr> stdout := chunks, error_once := False \<rparr>,
            resolved := True, timeoutID := None, settle_calls := [Rejected err] \<rparr>"
    by (simp only: iv)
       (simp add: start_invocation_def spawnWrapper_def on_spawn_callback_def Let_def)
  show "timeoutID (race parse (?data @ [Child (ErrorEvent err)]) (start_invocation root)) = None"
    by (simp only: race_append race_Cons race_Nil error) simp
  show "settle_calls (race parse (?data @ Child (ErrorEvent err) # evs) (start_invocation root)) =
          [Rejected err]"
    using winner_stays [OF ok error _ refl, of evs] by simp
qed

text \<open>The race of C2 on a run in which the child closes after the timer has elapsed.\<close>

theorem race_has_one_winner_witness:
  "settle_calls (race sample_parse
     [Child (StdoutData ''{''), Timer, Child (StdoutData ''}''), Child (CloseEvent 0), Timer]
     (start_invocation ''/project'')) = [Rejected TimeoutError]"
  using race_has_one_winner [where parse = sample_parse and root = "''/project''"
      and chunks = "[''{'']"
      and evs = "[Child (StdoutData ''}''), Child (CloseEvent 0), Timer]"]
  by simp

section \<open>Runs and the invariant of the table\<close>

lemma run_Nil [simp]: "run resolve parse throws [] s = s"
  by (simp add: run_def)

lemma run_Cons [simp]:
  "run resolve parse throws (ev # evs) s = run resolve parse throws evs (step resolve parse throws ev s)"
  by (simp add: run_def)

lemma run_append:
  "run resolve parse throws (xs @ ys) s = run resolve parse throws ys (run resolve parse throws xs s)"
  by (simp add: run_def)

lemma run_snoc:
  "run resolve parse throws (xs @ [ev]) s = step resolve parse throws ev (run resolve parse throws xs s)"
  by (simp add: run_def)

text \<open>The handlers of a caller only call its callback.\<close>

lemma handlers_fields [simp]:
  "getFlowResults (handlers resolve throws callback fullPath out s) = getFlowResults s"
  "invocations (handlers resolve throws callback fullPath out s) = invocations s"
  "calls (handlers resolve throws callback fullPath out s) = calls s"
  by (simp_all add: handlers_def call_back_def split: settlement.splits option.splits)

lemma reactions_fields:
  "getFlowResults (foldl (\<lambda>s (callback, fullPath).
       handlers resolve throws callback fullPath out s) s ws) = getFlowResults s"
  "invocations (foldl (\<lambda>s (callback, fullPath).
       handlers resolve throws callback fullPath out s) s ws) = invocations s"
  "calls (foldl (\<lambda>s (callback, fullPath).
       handlers resolve throws callback fullPath out s) s ws) = calls s"
  by (induction ws arbitrary: s) (simp_all add: split_def)

lemma on_timeout_fields [simp]:
  "inv_root (on_timeout iv) = inv_root iv"
  "reacted (on_timeout iv) = reacted iv"
  "waiters (on_timeout iv) = waiters iv"
  by (simp_all add: on_timeout_def)

lemma on_spawn_callback_fields [simp]:
  "inv_root (on_spawn_callback parse args iv) = inv_root iv"
  "reacted (on_spawn_callback parse args iv) = reacted iv"
  "waiters (on_spawn_callback parse args iv) = waiters iv"
  by (simp_all add: on_spawn_callback_def Let_def split: sum.splits callback_args.splits)

lemma race_step_fields [simp]:
  "inv_root (race_step parse ev iv) = inv_root iv"
  "reacted (race_step parse ev iv) = reacted iv"
  "waiters (race_step parse ev iv) = waiters iv"
proof -
  have "inv_root (race_step parse ev iv) = inv_root iv
        \<and> reacted (race_step parse ev iv) = reacted iv
        \<and> waiters (race_step parse ev iv) = waiters iv"
  proof (cases ev)
    case Timer
    then show ?thesis by (simp split: option.splits)
  next
    case (Child cev)
    then show ?thesis by (cases cev) simp_all
  qed
  then show "inv_root (race_step parse ev iv) = inv_root iv"
    and "reacted (race_step parse ev iv) = reacted iv"
    and "waiters (race_step parse ev iv) = waiters iv"
    by simp_all
qed

lemma map_update_same:
  "f y = f (xs ! p) \<Longrightarrow> map f (xs[p := y]) = map f xs"
proof (induction xs arbitrary: p)
  case Nil
  show ?case by simp
next
  case (Cons x xs)
  then show ?case by (cases p) simp_all
qed

lemma table_ok_cong:
  assumes "getFlowResults s' = getFlowResults s"
      and "map (\<lambda>iv. (inv_root iv, reacted iv)) (invocations s') =
           map (\<lambda>iv. (inv_root iv, reacted iv)) (invocations s)"
  shows "table_ok s' = table_ok s"
proof -
  from assms(2) have len: "length (invocations s') = length (invocations s)"
    by (rule map_eq_imp_length_eq)
  have nth: "inv_root (invocations s' ! p) = inv_root (invocations s ! p)
             \<and> reacted (invocations s' ! p) = reacted (invocations s ! p)"
    if "p < length (invocations s)" for p
  proof -
    from that len
    have "map (\<lambda>iv. (inv_root iv, reacted iv)) (invocations s') ! p =
          (inv_root (invocations s' ! p), reacted (invocations s' ! p))"
      and "map (\<lambda>iv. (inv_root iv, reacted iv)) (invocations s) ! p =
          (inv_root (invocations s ! p), reacted (invocations s ! p))"
      by simp_all
    with assms(2) show ?thesis by simp
  qed
  show ?thesis
    unfolding table_ok_def by (simp add: assms(1) len nth cong: conj_cong)
qed

lemma table_ok_init: "table_ok init"
  by (simp add: table_ok_def init_def)

lemma table_ok_handlers [simp]:
  "table_ok (handlers resolve throws callback fullPath out s) = table_ok s"
  by (rule table_ok_cong) simp_all

lemma table_ok_call_back [simp]: "table_ok (call_back callback args s) = table_ok s"
  by (rule table_ok_cong) (simp_all add: call_back_def)

lemma table_ok_calls [simp]: "table_ok (s\<lparr> calls := n \<rparr>) = table_ok s"
  by (rule table_ok_cong) simp_all

lemma table_ok_race_step:
  "table_ok (s\<lparr> invocations := (invocations s)[p := race_step parse ev (invocations s ! p)] \<rparr>) = table_ok s"
  by (rule table_ok_cong) (simp_all add: map_update_same)

lemma table_ok_attach: "table_ok (attach resolve throws p callback fullPath s) = table_ok s"
  by (rule table_ok_cong)
     (simp_all add: attach_def Let_def map_update_same split: option.splits)

lemma table_ok_getFlowResult:
  assumes "table_ok s"
  shows "table_ok (snd (getFlowResult projectRoot s))"
proof (cases "getFlowResults s projectRoot")
  case (Some v)
  with assms show ?thesis by (simp add: getFlowResult_def)
next
  case None
  let ?n = "length (invocations s)"
  let ?invs = "invocations s @ [start_invocation projectRoot]"
  let ?tab = "(getFlowResults s)(projectRoot \<mapsto> Promise ?n)"
  from assms have old: "p < ?n \<and> inv_root (invocations s ! p) = root
                        \<and> \<not> reacted (invocations s ! p)"
    if "getFlowResults s root = Some (Promise p)" for root p
    using that unfolding table_ok_def by blast
  from assms have owner: "getFlowResults s (inv_root (invocations s ! p)) = Some (Promise p)"
    if "p < ?n" "\<not> reacted (invocations s ! p)" for p
    using that unfolding table_ok_def by blast
  from assms have proto: "getFlowResults s root = Some Inherited"
    if "root \<in> set Object_prototype" for root
    using that unfolding table_ok_def by blast
  have fwd: "p < length ?invs \<and> inv_root (?invs ! p) = root \<and> \<not> reacted (?invs ! p)"
    if a: "?tab root = Some (Promise p)" for root p
  proof (cases "root = projectRoot")
    case True
    with a have "p = ?n" by simp
    with True show ?thesis by (simp add: start_invocation_def)
  next
    case False
    with a have "getFlowResults s root = Some (Promise p)" by simp
    from old [OF this] show ?thesis by (simp add: nth_append)
  qed
  have bwd: "?tab (inv_root (?invs ! p)) = Some (Promise p)"
    if p: "p < length ?invs" and r: "\<not> reacted (?invs ! p)" for p
  proof (cases "p < ?n")
    case True
    with r have "getFlowResults s (inv_root (invocations s ! p)) = Some (Promise p)"
      using owner by (simp add: nth_append)
    moreover from this None have "inv_root (invocations s ! p) \<noteq> projectRoot" by auto
    ultimately show ?thesis using True by (simp add: nth_append)
  next
    case False
    with p have "p = ?n" by simp
    then show ?thesis by (simp add: start_invocation_def)
  qed
  have inh: "?tab root = Some Inherited" if "root \<in> set Object_prototype" for root
    using proto [OF that] None by auto
  have "table_ok (s\<lparr> invocations := ?invs, getFlowResults := ?tab \<rparr>)"
    unfolding table_ok_def using fwd bwd inh by simp
  with None show ?thesis by (simp add: getFlowResult_def)
qed

lemma table_ok_react:
  assumes "table_ok s"
  shows "table_ok (react resolve throws p s)"
proof (cases "p < length (invocations s) \<and> \<not> reacted (invocations s ! p)
              \<and> promise_state (invocations s ! p) \<noteq> None")
  case False
  then have "react resolve throws p s = s"
    by (auto simp: react_def Let_def split: option.splits)
  with assms show ?thesis by simp
next
  case True
  then obtain out where out: "promise_state (invocations s ! p) = Some out" by auto
  let ?root = "inv_root (invocations s ! p)"
  let ?invs = "(invocations s)[p := (invocations s ! p)\<lparr> reacted := True \<rparr>]"
  let ?tab = "(getFlowResults s)(?root := None)"
  from assms have old: "q < length (invocations s) \<and> inv_root (invocations s ! q) = root
                        \<and> \<not> reacted (invocations s ! q)"
    if "getFlowResults s root = Some (Promise q)" for root q
    using that unfolding table_ok_def by blast
  from assms have owner: "getFlowResults s (inv_root (invocations s ! q)) = Some (Promise q)"
    if "q < length (invocations s)" "\<not> reacted (invocations s ! q)" for q
    using that unfolding table_ok_def by blast
  from assms have proto: "getFlowResults s root = Some Inherited"
    if "root \<in> set Object_prototype" for root
    using that unfolding table_ok_def by blast
  from True owner have slot: "getFlowResults s ?root = Some (Promise p)" by simp
  have fwd: "q < length ?invs \<and> inv_root (?invs ! q) = root \<and> \<not> reacted (?invs ! q)"
    if a: "?tab root = Some (Promise q)" for root q
  proof -
    from a have root: "root \<noteq> ?root" and q: "getFlowResults s root = Some (Promise q)"
      by (simp_all split: if_splits)
    from old [OF q] root have "q \<noteq> p" by auto
    with old [OF q] show ?thesis by simp
  qed
  have bwd: "?tab (inv_root (?invs ! q)) = Some (Promise q)"
    if q: "q < length ?invs" and r: "\<not> reacted (?invs ! q)" for q
  proof -
    from q r have ne: "q \<noteq> p" by auto
    with q r have *: "getFlowResults s (inv_root (invocations s ! q)) = Some (Promise q)"
      using owner by simp
    with slot ne have "inv_root (invocations s ! q) \<noteq> ?root" by auto
    with * ne show ?thesis by simp
  qed
  have inh: "?tab root = Some Inherited" if "root \<in> set Object_prototype" for root
    using proto [OF that] slot by auto
  have "table_ok (s\<lparr> getFlowResults := ?tab, invocations := ?invs \<rparr>)"
    unfolding table_ok_def using fwd bwd inh by simp
  moreover have "table_ok (react resolve throws p s) =
                 table_ok (s\<lparr> getFlowResults := ?tab, invocations := ?invs \<rparr>)"
    using True out by (intro table_ok_cong) (simp_all add: react_def Let_def reactions_fields)
  ultimately show ?thesis by simp
qed

lemma table_ok_step: "table_ok s \<Longrightarrow> table_ok (step resolve parse throws ev s)"
proof (cases ev)
  case (Scan c b root f)
  assume "table_ok s"
  then have "table_ok (snd (getFlowResult root (s\<lparr> calls := Suc (calls s) \<rparr>)))"
    by (intro table_ok_getFlowResult) simp
  with Scan \<open>table_ok s\<close> show ?thesis
    by (auto simp: scanFileWithFlow_def table_ok_attach split: prod.splits table_value.splits)
next
  case (Inv p rev)
  assume "table_ok s"
  with Inv show ?thesis by (simp add: table_ok_race_step)
next
  case (PromiseReacts p)
  assume "table_ok s"
  with PromiseReacts show ?thesis by (simp add: table_ok_react)
qed

lemma table_ok_run: "table_ok s \<Longrightarrow> table_ok (run resolve parse throws evs s)"
  by (induction evs arbitrary: s) (simp_all add: table_ok_step)

section \<open>The steps of a run\<close>

text \<open>What each kind of step does to the state.\<close>

lemma scan_immediate:
  "\<not> (hasFlowConfig \<and> hasFlowBin) \<Longrightarrow>
   step resolve parse throws (Scan hasFlowConfig hasFlowBin projectRoot fullPath) s =
     s\<lparr> calls := Suc (calls s),
        callbacks := callbacks s @
          [(calls s, Report (if \<not> hasFlowConfig then \<lparr> rep_errors = [] \<rparr>
                             else no_flow_bin_report))] \<rparr>"
  by (auto simp: scanFileWithFlow_def call_back_def)

lemma scan_joins:
  assumes "table_ok s" and "getFlowResults s projectRoot = Some (Promise p)"
  shows "step resolve parse throws (Scan True True projectRoot fullPath) s =
     s\<lparr> calls := Suc (calls s),
        invocations := (invocations s)
          [p := (invocations s ! p)\<lparr> waiters := waiters (invocations s ! p) @ [(calls s, fullPath)] \<rparr>] \<rparr>"
proof -
  from assms have "p < length (invocations s)" "\<not> reacted (invocations s ! p)"
    unfolding table_ok_def by blast+
  with assms(2) show ?thesis
    by (simp add: scanFileWithFlow_def getFlowResult_def attach_def Let_def)
qed

lemma scan_starts:
  assumes "getFlowResults s projectRoot = None"
  shows "step resolve parse throws (Scan True True projectRoot fullPath) s =
     s\<lparr> calls := Suc (calls s),
        invocations := invocations s @
          [(start_invocation projectRoot)\<lparr> waiters := [(calls s, fullPath)] \<rparr>],
        getFlowResults := (getFlowResults s)(projectRoot \<mapsto> Promise (length (invocations s))) \<rparr>"
  using assms
  by (simp add: scanFileWithFlow_def getFlowResult_def attach_def Let_def start_invocation_def)

lemma scan_inherited:
  assumes "getFlowResults s projectRoot = Some Inherited"
  shows "step resolve parse throws (Scan True True projectRoot fullPath) s =
     s\<lparr> calls := Suc (calls s) \<rparr>"
  using assms by (simp add: scanFileWithFlow_def getFlowResult_def)

lemma handlers_callbacks:
  "callbacks (handlers resolve throws callback fullPath out s) =
     callbacks s @ handler_calls resolve throws out (callback, fullPath)"
  by (simp add: handlers_def handler_calls_def call_back_def
        split: settlement.splits option.splits)

lemma reactions_callbacks:
  "callbacks (foldl (\<lambda>s (callback, fullPath).
       handlers resolve throws callback fullPath out s) s ws) =
     callbacks s @ concat (map (handler_calls resolve throws out) ws)"
  by (induction ws arbitrary: s) (simp_all add: split_def handlers_callbacks)

lemma handler_calls_Rejected:
  "handler_calls resolve throws (Rejected err) caller =
     [(fst caller, report_outcome resolve (snd caller) (Rejected err))]"
  by (simp add: handler_calls_def)

lemma handler_calls_returns:
  "handler_calls resolve returns out caller = [(fst caller, report_outcome resolve (snd caller) out)]"
  by (simp add: handler_calls_def returns_def split: settlement.splits)

lemma react_idle:
  "\<not> (p < length (invocations s) \<and> \<not> reacted (invocations s ! p)
       \<and> promise_state (invocations s ! p) \<noteq> None) \<Longrightarrow>
   react resolve throws p s = s"
  by (auto simp: react_def Let_def split: option.splits)

lemma react_fires:
  assumes "p < length (invocations s)" and "\<not> reacted (invocations s ! p)"
      and "promise_state (invocations s ! p) = Some out"
  shows "react resolve throws p s =
     s\<lparr> getFlowResults := (getFlowResults s)(inv_root (invocations s ! p) := None),
        invocations := (invocations s)[p := (invocations s ! p)\<lparr> reacted := True \<rparr>],
        callbacks := callbacks s @
          concat (map (handler_calls resolve throws out) (waiters (invocations s ! p))) \<rparr>"
  using assms
  by (intro state.equality)
     (simp_all add: react_def Let_def reactions_fields reactions_callbacks)

declare step.simps [simp del]

section \<open>Coalescing\<close>

lemma callers_of_Cons:
  "callers_of key n (ev # evs) =
     callers_of key n [ev] @
     callers_of key (case ev of Scan c b root f \<Rightarrow> Suc n | _ \<Rightarrow> n) evs"
  by (cases ev) simp_all

lemma inv_events_Cons:
  "inv_events p (ev # evs) = inv_events p [ev] @ inv_events p evs"
  by (cases ev) simp_all

lemma calls_step:
  "calls (step resolve parse throws ev s) =
     (case ev of Scan c b root f \<Rightarrow> Suc (calls s) | _ \<Rightarrow> calls s)"
proof (cases ev)
  case (Scan c b root f)
  then show ?thesis
    by (simp add: step.simps scanFileWithFlow_def getFlowResult_def attach_def call_back_def
          Let_def split: option.splits table_value.splits)
next
  case (Inv p rev)
  then show ?thesis by (simp add: step.simps)
next
  case (PromiseReacts p)
  then show ?thesis
    by (simp add: step.simps react_def Let_def reactions_fields split: option.splits)
qed

text \<open>The race does not look at the reactions attached to the promise.\<close>

lemma waiters_same: "waiters iv = w \<Longrightarrow> iv\<lparr> waiters := w \<rparr> = iv"
  by (cases iv) simp

lemma race_step_waiters:
  "race_step parse ev (iv\<lparr> waiters := w \<rparr>) = (race_step parse ev iv)\<lparr> waiters := w \<rparr>"
proof (cases ev)
  case Timer
  then show ?thesis by (simp add: on_timeout_def split: option.splits)
next
  case (Child cev)
  then show ?thesis
    by (cases cev)
       (simp_all add: on_spawn_callback_def Let_def split: sum.splits callback_args.splits)
qed

lemma race_waiters:
  "race parse evs (iv\<lparr> waiters := w \<rparr>) = (race parse evs iv)\<lparr> waiters := w \<rparr>"
  by (induction evs arbitrary: iv) (simp_all add: race_step_waiters)

lemma race_ok_waiters [simp]: "race_ok (iv\<lparr> waiters := w \<rparr>) = race_ok iv"
  by (simp add: race_ok_def)

text \<open>When its timer elapses, an invocation is settled, if it was not before.\<close>

lemma timer_settles:
  assumes "race_ok iv"
  shows "\<exists>out. promise_state (race_step parse Timer iv) = Some out"
proof (cases "timeoutID iv")
  case None
  with assms have "length (settle_calls iv) = 1"
    by (auto simp: race_ok_def)
  then obtain out where "settle_calls iv = [out]"
    by (cases "settle_calls iv") auto
  with None show ?thesis by (simp add: promise_state_def)
next
  case (Some ms)
  with assms have "\<not> (resolved iv \<or> timedOut iv)" "settle_calls iv = []"
    by (auto simp: race_ok_def)
  with Some show ?thesis by (simp add: on_timeout_def promise_state_def)
qed

text \<open>
  While the table holds the promise \<open>p\<close> under \<open>key\<close>, a step other than the handlers
  of \<open>p\<close> keeps it there, starts no invocation for \<open>key\<close>, moves invocation \<open>p\<close> by the
  event of its race, if the step is one, and adds to the reactions of \<open>p\<close> exactly the
  caller of that step, if it is a call for \<open>key\<close>.
\<close>

lemma coalesce_step:
  assumes ok: "table_ok s" and slot: "getFlowResults s key = Some (Promise p)"
      and ne: "ev \<noteq> PromiseReacts p"
  shows "getFlowResults (step resolve parse throws ev s) key = Some (Promise p)
     \<and> invocations (step resolve parse throws ev s) ! p =
         (race parse (inv_events p [ev]) (invocations s ! p))
           \<lparr> waiters := waiters (invocations s ! p) @ callers_of key (calls s) [ev] \<rparr>
     \<and> (\<exists>new. map inv_root (invocations (step resolve parse throws ev s)) =
                 map inv_root (invocations s) @ new \<and> key \<notin> set new)"
proof -
  from ok slot have p: "p < length (invocations s)" "inv_root (invocations s ! p) = key"
      "\<not> reacted (invocations s ! p)"
    unfolding table_ok_def by blast+
  show ?thesis
  proof (cases ev)
    case (Scan c b root f)
    show ?thesis
    proof (cases "c \<and> b")
      case False
      with Scan slot show ?thesis by (auto simp: scan_immediate waiters_same)
    next
      case True
      then have ev: "ev = Scan True True root f" using Scan by simp
      show ?thesis
      proof (cases "getFlowResults s root")
        case None
        with slot have "root \<noteq> key" by auto
        with p slot show ?thesis
          unfolding ev scan_starts [OF None]
          by (simp add: nth_append start_invocation_def waiters_same)
      next
        case (Some v)
        show ?thesis
        proof (cases v)
          case Inherited
          with Some have inh: "getFlowResults s root = Some Inherited" by simp
          with slot have "root \<noteq> key" by auto
          with slot show ?thesis
            unfolding ev scan_inherited [OF inh] by (simp add: waiters_same)
        next
          case (Promise q)
          with Some have sq: "getFlowResults s root = Some (Promise q)" by simp
          with ok have q: "q < length (invocations s)" "inv_root (invocations s ! q) = root"
            unfolding table_ok_def by blast+
          show ?thesis
          proof (cases "root = key")
            case True
            with sq slot have "q = p" by simp
            with p slot True show ?thesis
              unfolding ev scan_joins [OF ok sq]
              by (simp add: map_update_same)
          next
            case False
            with q p have "q \<noteq> p" by auto
            with p slot False show ?thesis
              unfolding ev scan_joins [OF ok sq]
              by (simp add: map_update_same waiters_same)
          qed
        qed
      qed
    qed
  next
    case (Inv q rev)
    with p slot show ?thesis
      by (cases "q = p") (simp_all add: step.simps map_update_same waiters_same)
  next
    case (PromiseReacts q)
    with ne have qp: "q \<noteq> p" by simp
    show ?thesis
    proof (cases "q < length (invocations s) \<and> \<not> reacted (invocations s ! q)
                  \<and> promise_state (invocations s ! q) \<noteq> None")
      case False
      with PromiseReacts slot show ?thesis
        by (simp add: step.simps react_idle waiters_same)
    next
      case True
      then obtain out where out: "promise_state (invocations s ! q) = Some out" by auto
      from ok True have "getFlowResults s (inv_root (invocations s ! q)) = Some (Promise q)"
        unfolding table_ok_def by blast
      with slot qp have "inv_root (invocations s ! q) \<noteq> key" by auto
      with p slot qp PromiseReacts True show ?thesis
        by (simp add: step.simps react_fires [OF _ _ out] map_update_same waiters_same)
    qed
  qed
qed

lemma coalesce_run:
  assumes "table_ok s" and "getFlowResults s key = Some (Promise p)"
      and "PromiseReacts p \<notin> set evs"
  shows "getFlowResults (run resolve parse throws evs s) key = Some (Promise p)
     \<and> invocations (run resolve parse throws evs s) ! p =
         (race parse (inv_events p evs) (invocations s ! p))
           \<lparr> waiters := waiters (invocations s ! p) @ callers_of key (calls s) evs \<rparr>
     \<and> (\<exists>new. map inv_root (invocations (run resolve parse throws evs s)) =
                 map inv_root (invocations s) @ new \<and> key \<notin> set new)"
  using assms
proof (induction evs arbitrary: s)
  case Nil
  then show ?case by (simp add: waiters_same)
next
  case (Cons ev evs)
  let ?s = "step resolve parse throws ev s"
  from Cons.prems have ne: "ev \<noteq> PromiseReacts p" and rest: "PromiseReacts p \<notin> set evs"
    by auto
  note st = coalesce_step [OF Cons.prems(1,2) ne, of resolve parse throws]
  from st obtain new1 where new1:
    "map inv_root (invocations ?s) = map inv_root (invocations s) @ new1" "key \<notin> set new1"
    by blast
  have ok: "table_ok ?s" by (rule table_ok_step [OF Cons.prems(1)])
  from st have slot: "getFlowResults ?s key = Some (Promise p)" by simp
  note ih = Cons.IH [OF ok slot rest]
  from ih obtain new2 where new2:
    "map inv_root (invocations (run resolve parse throws evs ?s)) =
       map inv_root (invocations ?s) @ new2" "key \<notin> set new2"
    by blast
  from st have iv1: "invocations ?s ! p =
         (race parse (inv_events p [ev]) (invocations s ! p))
           \<lparr> waiters := waiters (invocations s ! p) @ callers_of key (calls s) [ev] \<rparr>"
    by simp
  from ih have "invocations (run resolve parse throws evs ?s) ! p =
         (race parse (inv_events p evs) (invocations ?s ! p))
           \<lparr> waiters := waiters (invocations ?s ! p) @ callers_of key (calls ?s) evs \<rparr>"
    by simp
  then have "invocations (run resolve parse throws evs ?s) ! p =
        (race parse (inv_events p (ev # evs)) (invocations s ! p))
          \<lparr> waiters := waiters (invocations s ! p) @ callers_of key (calls s) (ev # evs) \<rparr>"
    unfolding iv1
    by (subst callers_of_Cons, subst inv_events_Cons)
       (simp add: race_waiters race_append calls_step del: callers_of.simps inv_events.simps)
  moreover have "map inv_root (invocations (run resolve parse throws evs ?s)) =
        map inv_root (invocations s) @ (new1 @ new2) \<and> key \<notin> set (new1 @ new2)"
    using new1 new2 by simp
  ultimately show ?case
    using ih by (simp del: callers_of.simps inv_events.simps)
qed

lemma scans_inherited:
  "getFlowResults s root = Some Inherited \<Longrightarrow>
   run resolve parse throws (map (Scan True True root) fullPaths) s =
     s\<lparr> calls := calls s + length fullPaths \<rparr>"
proof (induction fullPaths arbitrary: s)
  case Nil
  then show ?case by simp
next
  case (Cons f fs)
  from Cons.prems have "getFlowResults (s\<lparr> calls := Suc (calls s) \<rparr>) root = Some Inherited"
    by simp
  from Cons.IH [OF this] Cons.prems show ?case
    by (simp add: scan_inherited)
qed

text \<open>
  For a key that the table reads as \<open>undefined\<close>, the calls are coalesced. Let \<open>s0\<close> be
  a state that the module can reach and in which the table reads \<open>undefined\<close> at \<open>key\<close>,
  and let a call of \<open>scanFileWithFlow\<close> for \<open>key\<close> that gets as far as \<open>getFlowResult\<close>
  be followed by any events \<open>evs\<close> among which the handlers of the promise it obtained
  (number \<open>length (invocations s0)\<close>) do not run: further calls for this and for other
  keys, timers, and events of any child, also of this invocation. Then the table still
  holds that promise under \<open>key\<close>; exactly one invocation for \<open>key\<close> was started since
  \<open>s0\<close>; that invocation is the one that \<open>start_invocation\<close> made, with its child
  spawned and its timer armed, moved by the events of its own race in \<open>evs\<close> and by
  nothing else, and the reactions attached to its promise are those of all the \<open>N\<close>
  calls for \<open>key\<close> (\<open>callers_of\<close>), in the order of the calls, so every one of these
  calls was handed this one promise. The invocation does settle: once its timer has
  elapsed the promise has an outcome \<open>out\<close>, and when the handlers then run, the
  handlers of each of the \<open>N\<close> callers run with that same \<open>out\<close> (\<open>handler_calls\<close>: the
  callback of the caller is called with \<open>report_outcome\<close> of \<open>out\<close> for the caller's
  own file). And whenever the promise is settled with \<open>out\<close> and the handlers run, they
  do so for each of the \<open>N\<close> callers with that \<open>out\<close>.
\<close>

theorem single_flight:
  assumes "s0 = run resolve parse throws pre init"
      and "getFlowResults s0 key = None"
      and "PromiseReacts (length (invocations s0)) \<notin> set evs"
      and "s = run resolve parse throws (Scan True True key fullPath # evs) s0"
  shows "getFlowResults s key = Some (Promise (length (invocations s0)))
     \<and> count_list (drop (length (invocations s0)) (map inv_root (invocations s))) key = 1
     \<and> invocations s ! length (invocations s0) =
         (race parse (inv_events (length (invocations s0)) evs) (start_invocation key))
           \<lparr> waiters := callers_of key (calls s0) (Scan True True key fullPath # evs) \<rparr>
     \<and> (\<exists>out.
          promise_state
            (invocations (step resolve parse throws (Inv (length (invocations s0)) Timer) s)
               ! length (invocations s0)) = Some out
          \<and> callbacks (run resolve parse throws
               [Inv (length (invocations s0)) Timer, PromiseReacts (length (invocations s0))] s) =
              callbacks s @
              concat (map (handler_calls resolve throws out)
                (callers_of key (calls s0) (Scan True True key fullPath # evs))))
     \<and> (\<forall>out. promise_state (invocations s ! length (invocations s0)) = Some out \<longrightarrow>
          callbacks (step resolve parse throws (PromiseReacts (length (invocations s0))) s) =
            callbacks s @
            concat (map (handler_calls resolve throws out)
              (callers_of key (calls s0) (Scan True True key fullPath # evs))))"
proof -
  let ?p = "length (invocations s0)"
  let ?s1 = "step resolve parse throws (Scan True True key fullPath) s0"
  let ?callers = "callers_of key (calls s0) (Scan True True key fullPath # evs)"
  have ok0: "table_ok s0"
    unfolding assms(1) by (rule table_ok_run [OF table_ok_init])
  have s1: "?s1 = s0\<lparr> calls := Suc (calls s0),
        invocations := invocations s0 @
          [(start_invocation key)\<lparr> waiters := [(calls s0, fullPath)] \<rparr>],
        getFlowResults := (getFlowResults s0)(key \<mapsto> Promise ?p) \<rparr>"
    by (rule scan_starts [OF assms(2)])
  have ok1: "table_ok ?s1" by (rule table_ok_step [OF ok0])
  have slot1: "getFlowResults ?s1 key = Some (Promise ?p)" by (simp add: s1)
  have s: "s = run resolve parse throws evs ?s1" by (simp add: assms(4))
  note run = coalesce_run [OF ok1 slot1 assms(3), of resolve parse throws, folded s]
  from run obtain new where new:
    "map inv_root (invocations s) = map inv_root (invocations ?s1) @ new" "key \<notin> set new"
    by blast
  have ok: "table_ok s" unfolding s by (rule table_ok_run [OF ok1])
  from run have slot: "getFlowResults s key = Some (Promise ?p)" by simp
  with ok have p: "?p < length (invocations s)" "\<not> reacted (invocations s ! ?p)"
    unfolding table_ok_def by blast+
  from run have "invocations s ! ?p =
         (race parse (inv_events ?p evs) (invocations ?s1 ! ?p))
           \<lparr> waiters := waiters (invocations ?s1 ! ?p) @ callers_of key (calls ?s1) evs \<rparr>"
    by simp
  then have iv: "invocations s ! ?p =
         (race parse (inv_events ?p evs) (start_invocation key))\<lparr> waiters := ?callers \<rparr>"
    by (simp add: s1 race_waiters)
  have w: "waiters (invocations s ! ?p) = ?callers"
    unfolding iv by simp
  have one: "count_list (drop ?p (map inv_root (invocations s))) key = 1"
    using new by (simp add: s1 start_invocation_def)
  have all: "callbacks (step resolve parse throws (PromiseReacts ?p) s) =
            callbacks s @ concat (map (handler_calls resolve throws out) ?callers)"
    if "promise_state (invocations s ! ?p) = Some out" for out
    using react_fires [OF p that, of resolve throws] by (simp add: step.simps w)
  have "race_ok (invocations s ! ?p)"
    unfolding iv by (simp add: race_ok_race [OF race_ok_start])
  from timer_settles [OF this, of parse]
  obtain out where out: "promise_state (race_step parse Timer (invocations s ! ?p)) = Some out"
    by blast
  let ?s2 = "step resolve parse throws (Inv ?p Timer) s"
  have s2: "?s2 = s\<lparr> invocations :=
        (invocations s)[?p := race_step parse Timer (invocations s ! ?p)] \<rparr>"
    using p(1) by (simp add: step.simps)
  have iv2: "invocations ?s2 ! ?p = race_step parse Timer (invocations s ! ?p)"
    unfolding s2 using p(1) by simp
  have p2: "?p < length (invocations ?s2)" using p(1) by (simp add: s2)
  have r2: "\<not> reacted (invocations ?s2 ! ?p)"
    unfolding iv2 using p(2) by (simp del: race_step.simps)
  have out2: "promise_state (invocations ?s2 ! ?p) = Some out"
    unfolding iv2 by (rule out)
  have w2: "waiters (invocations ?s2 ! ?p) = ?callers"
    unfolding iv2 by (simp only: race_step_fields w)
  have c2: "callbacks ?s2 = callbacks s" by (simp add: s2)
  have "callbacks (step resolve parse throws (PromiseReacts ?p) ?s2) =
          callbacks ?s2 @
          concat (map (handler_calls resolve throws out) (waiters (invocations ?s2 ! ?p)))"
    using react_fires [OF p2 r2 out2, of resolve throws] by (simp add: step.simps(3))
  then have timer: "callbacks (run resolve parse throws [Inv ?p Timer, PromiseReacts ?p] s) =
          callbacks s @ concat (map (handler_calls resolve throws out) ?callers)"
    by (simp add: w2 c2)
  from out2 timer have settles: "\<exists>out.
          promise_state (invocations ?s2 ! ?p) = Some out
          \<and> callbacks (run resolve parse throws [Inv ?p Timer, PromiseReacts ?p] s) =
              callbacks s @ concat (map (handler_calls resolve throws out) ?callers)"
    by blast
  from slot one iv settles all show ?thesis by blast
qed

text \<open>
  Three calls for one key and one for another, while the child of the first writes its
  result and closes: one invocation for the key, and when the handlers run, the three
  callbacks get the report of the one result, each once. The timer, which elapses
  after the child has closed, changes nothing.
\<close>

theorem single_flight_witness:
  "getFlowResults
     (run (posix_resolve ''/home/user'') sample_parse returns
        [Scan True True ''/project'' ''/project/a.js'',
         Scan True True ''/project'' ''/project/b.js'',
         Inv 0 (Child (StdoutData ''{\"errors\":[]}'')),
         Scan True True ''/other'' ''/other/x.js'',
         Inv 0 (Child (CloseEvent 0)),
         Scan True True ''/project'' ''/project/c.js''] init) ''/project'' = Some (Promise 0)
   \<and> map inv_root (invocations
     (run (posix_resolve ''/home/user'') sample_parse returns
        [Scan True True ''/project'' ''/project/a.js'',
         Scan True True ''/project'' ''/project/b.js'',
         Inv 0 (Child (StdoutData ''{\"errors\":[]}'')),
         Scan True True ''/other'' ''/other/x.js'',
         Inv 0 (Child (CloseEvent 0)),
         Scan True True ''/project'' ''/project/c.js''] init)) = [''/project'', ''/other'']
   \<and> callbacks
     (run (posix_resolve ''/home/user'') sample_parse returns
        [Scan True True ''/project'' ''/project/a.js'',
         Scan True True ''/project'' ''/project/b.js'',
         Inv 0 (Child (StdoutData ''{\"errors\":[]}'')),
         Scan True True ''/other'' ''/other/x.js'',
         Inv 0 (Child (CloseEvent 0)),
         Scan True True ''/project'' ''/project/c.js'',
         Inv 0 Timer,
         PromiseReacts 0] init) =
       [(0, Report \<lparr> rep_errors = [] \<rparr>), (1, Report \<lparr> rep_errors = [] \<rparr>),
        (3, Report \<lparr> rep_errors = [] \<rparr>)]"
  using single_flight [where ?s0.0 = init and resolve = "posix_resolve ''/home/user''"
      and parse = sample_parse and throws = returns and pre = "[]" and key = "''/project''"
      and fullPath = "''/project/a.js''"
      and evs = "[Scan True True ''/project'' ''/project/b.js'',
         Inv 0 (Child (StdoutData ''{\"errors\":[]}'')),
         Scan True True ''/other'' ''/other/x.js'',
         Inv 0 (Child (CloseEvent 0)),
         Scan True True ''/project'' ''/project/c.js'']"
      and s = "run (posix_resolve ''/home/user'') sample_parse returns
        [Scan True True ''/project'' ''/project/a.js'',
         Scan True True ''/project'' ''/project/b.js'',
         Inv 0 (Child (StdoutData ''{\"errors\":[]}'')),
         Scan True True ''/other'' ''/other/x.js'',
         Inv 0 (Child (CloseEvent 0)),
         Scan True True ''/project'' ''/project/c.js''] init"]
  by (simp add: step.simps scanFileWithFlow_def getFlowResult_def attach_def init_def
        start_invocation_def on_timeout_def on_spawn_callback_def promise_state_def react_def
        call_back_def handlers_def returns_def Object_prototype_def spawnWrapper_def
        sample_parse_def report_outcome_def createCodeInspectionReport_def Let_def
        handler_calls_def)

text \<open>
  Claim C1 does not hold for every project key. The table is the object \<open>{}\<close>, and at a
  key that is a name inherited from \<open>Object.prototype\<close>, such as \<open>constructor\<close>, line 92
  reads a function or an object that is not a promise, and returns it. In every state
  \<open>s\<close> that the module can reach and for every such \<open>root\<close>: \<open>getFlowResult\<close> returns the
  inherited value and changes nothing, so it starts no invocation, however many calls
  are made (the claim demands exactly one); \<open>scanFileWithFlow\<close> throws the \<open>TypeError\<close>
  of line 152 to its caller; and the call leaves the module as it was but for the
  count of the calls: no invocation, no reaction, no call of the callback, so no caller
  receives an outcome.
\<close>

theorem inherited_key_starts_no_invocation:
  assumes "s = run resolve parse throws evs init"
      and "root \<in> set Object_prototype"
  shows "getFlowResult root s = (Inherited, s)
     \<and> scanFileWithFlow resolve throws True True root fullPath callback s =
         (Some not_a_promise, s)
     \<and> step resolve parse throws (Scan True True root fullPath) s =
         s\<lparr> calls := Suc (calls s) \<rparr>
     \<and> run resolve parse throws (map (Scan True True root) fullPaths) s =
         s\<lparr> calls := calls s + length fullPaths \<rparr>"
proof -
  have ok: "table_ok s"
    unfolding assms(1) by (rule table_ok_run [OF table_ok_init])
  with assms(2) have inh: "getFlowResults s root = Some Inherited"
    unfolding table_ok_def by blast
  from inh show ?thesis
    by (simp add: getFlowResult_def scanFileWithFlow_def scan_inherited scans_inherited)
qed

text \<open>
  Two calls for the key \<open>constructor\<close> in the initial state: \<open>getFlowResult\<close> returns
  the inherited value, \<open>scanFileWithFlow\<close> throws, and after the two calls, and after
  any timer or handlers that could run for a first invocation, there is no invocation
  and no callback has been called.
\<close>

theorem inherited_key_starts_no_invocation_witness:
  "getFlowResult ''constructor'' init = (Inherited, init)
   \<and> fst (scanFileWithFlow (posix_resolve ''/home/user'') returns True True
            ''constructor'' ''constructor/a.js'' 0 init) = Some not_a_promise
   \<and> invocations (run (posix_resolve ''/home/user'') sample_parse returns
        [Scan True True ''constructor'' ''constructor/a.js'',
         Scan True True ''constructor'' ''constructor/b.js'',
         Inv 0 Timer, PromiseReacts 0] init) = []
   \<and> callbacks (run (posix_resolve ''/home/user'') sample_parse returns
        [Scan True True ''constructor'' ''constructor/a.js'',
         Scan True True ''constructor'' ''constructor/b.js'',
         Inv 0 Timer, PromiseReacts 0] init) = []"
  using inherited_key_starts_no_invocation [where s = init
      and resolve = "posix_resolve ''/home/user''" and parse = sample_parse
      and throws = returns and evs = "[]" and root = "''constructor''"
      and fullPath = "''constructor/a.js''" and callback = 0
      and fullPaths = "[''constructor/a.js'', ''constructor/b.js'']"]
  by (simp add: step.simps react_def Object_prototype_def init_def scanFileWithFlow_def
        getFlowResult_def)

section \<open>Clearing the slot\<close>



section \<open>Timeouts and other failures\<close>

lemma timeout_report_eq:
  "timeout_report =
     \<lparr> rep_errors =
         [\<lparr> cir_type = ''problem_type_error'',
            cir_message = ''FlowError: Timed out after waiting 3000ms'',
            cir_pos = \<lparr> pos_line = 0, pos_ch = 0 \<rparr> \<rparr>] \<rparr>"
  by (simp add: timeout_report_def FLOW_TIMEOUT_def show_nat.simps)

lemma race_to_callback:
  assumes "getFlowResults s0 root = None"
  shows "callbacks (run resolve parse throws
           [Scan True True root fullPath, Inv (length (invocations s0)) Timer,
            PromiseReacts (length (invocations s0))] s0) =
         callbacks s0 @ [(calls s0, report_outcome resolve fullPath (Rejected TimeoutError))]"
    and "callbacks (run resolve parse throws
           [Scan True True root fullPath, Inv (length (invocations s0)) (Child (ErrorEvent err)),
            PromiseReacts (length (invocations s0))] s0) =
         callbacks s0 @ [(calls s0, report_outcome resolve fullPath (Rejected err))]"
    and "parse chunk = Inl err \<Longrightarrow>
         callbacks (run resolve parse throws
           [Scan True True root fullPath, Inv (length (invocations s0)) (Child (StdoutData chunk)),
            Inv (length (invocations s0)) (Child (CloseEvent code)),
            PromiseReacts (length (invocations s0))] s0) =
         callbacks s0 @ [(calls s0, report_outcome resolve fullPath (Rejected err))]"
  using assms
  by (simp_all add: scan_starts step.simps(2,3) start_invocation_def spawnWrapper_def
        on_timeout_def on_spawn_callback_def react_def promise_state_def call_back_def Let_def
        handlers_def)

text \<open>
  Claim C8. When the promise of \<open>getFlowResult\<close> is rejected with the \<open>TimeoutError\<close>,
  the callback is called with a report whose only diagnostic has the type
  \<open>problem_type_error\<close>, the position (0, 0) and a message that names the 3000 ms;
  when it is rejected with an error of any other name, the callback is called with
  that error. Followed through the run from a state \<open>s0\<close> without an entry for
  \<open>root\<close>: the call, then the timer, then the handlers give the callback the timeout
  report; the call, then an \<open>error\<close> of the child or output that the parser rejects,
  then the handlers give the callback the error.
\<close>

theorem timeout_reported_failures_propagated:
  "report_outcome resolve fullPath (Rejected TimeoutError) =
     Report \<lparr> rep_errors =
         [\<lparr> cir_type = ''problem_type_error'',
            cir_message = ''FlowError: Timed out after waiting 3000ms'',
            cir_pos = \<lparr> pos_line = 0, pos_ch = 0 \<rparr> \<rparr>] \<rparr>
   \<and> (err_name err \<noteq> ''TimeoutError'' \<longrightarrow>
        report_outcome resolve fullPath (Rejected err) = Err err)
   \<and> (getFlowResults s0 root = None \<longrightarrow>
        callbacks (run resolve parse throws
           [Scan True True root fullPath, Inv (length (invocations s0)) Timer,
            PromiseReacts (length (invocations s0))] s0) =
        callbacks s0 @
          [(calls s0, Report \<lparr> rep_errors =
             [\<lparr> cir_type = ''problem_type_error'',
                cir_message = ''FlowError: Timed out after waiting 3000ms'',
                cir_pos = \<lparr> pos_line = 0, pos_ch = 0 \<rparr> \<rparr>] \<rparr>)])
   \<and> (getFlowResults s0 root = None \<and> err_name err \<noteq> ''TimeoutError'' \<longrightarrow>
        callbacks (run resolve parse throws
           [Scan True True root fullPath, Inv (length (invocations s0)) (Child (ErrorEvent err)),
            PromiseReacts (length (invocations s0))] s0) =
        callbacks s0 @ [(calls s0, Err err)])
   \<and> (getFlowResults s0 root = None \<and> parse text = Inl err
        \<and> err_name err \<noteq> ''TimeoutError'' \<longrightarrow>
        callbacks (run resolve parse throws
           [Scan True True root fullPath, Inv (length (invocations s0)) (Child (StdoutData text)),
            Inv (length (invocations s0)) (Child (CloseEvent code)),
            PromiseReacts (length (invocations s0))] s0) =
        callbacks s0 @ [(calls s0, Err err)])"
proof -
  have t: "report_outcome resolve fullPath (Rejected TimeoutError) =
     Report \<lparr> rep_errors =
         [\<lparr> cir_type = ''problem_type_error'',
            cir_message = ''FlowError: Timed out after waiting 3000ms'',
            cir_pos = \<lparr> pos_line = 0, pos_ch = 0 \<rparr> \<rparr>] \<rparr>"
    by (simp add: report_outcome_def TimeoutError_def timeout_report_eq)
  have e: "report_outcome resolve fullPath (Rejected err) = Err err"
    if "err_name err \<noteq> ''TimeoutError''" for err
    using that by (simp add: report_outcome_def)
  note r1 = race_to_callback(1) [where resolve = resolve and parse = parse
      and throws = throws and fullPath = fullPath]
  note r2 = race_to_callback(2) [where resolve = resolve and parse = parse
      and throws = throws and fullPath = fullPath and err = err]
  note r3 = race_to_callback(3) [where resolve = resolve and parse = parse
      and throws = throws and fullPath = fullPath and err = err and chunk = "text"
      and code = code]
  show ?thesis
    using t e r1 r2 r3 by (simp del: run_Cons)
qed

text \<open>
  The three runs with a callback that throws whenever it is handed a report: on these
  paths it is the handler of \<open>.catch\<close> that calls it, and it is called once.
\<close>

theorem timeout_reported_failures_propagated_witness:
  "callbacks (run (posix_resolve ''/home/user'') sample_parse throws_on_report
     [Scan True True ''/project'' ''/project/a.js'', Inv 0 (Child (StdoutData ''flow: '')),
      Inv 0 (Child (CloseEvent 2)), PromiseReacts 0] init) =
   [(0, Err \<lparr> err_name = ''SyntaxError'', err_text = ''Unexpected end of JSON input'' \<rparr>)]
   \<and> callbacks (run (posix_resolve ''/home/user'') sample_parse throws_on_report
     [Scan True True ''/project'' ''/project/a.js'',
      Inv 0 (Child (ErrorEvent \<lparr> err_name = ''Error'', err_text = ''spawn EACCES'' \<rparr>)),
      PromiseReacts 0] init) =
   [(0, Err \<lparr> err_name = ''Error'', err_text = ''spawn EACCES'' \<rparr>)]
   \<and> callbacks (run (posix_resolve ''/home/user'') sample_parse throws_on_report
     [Scan True True ''/project'' ''/project/a.js'', Inv 0 Timer, PromiseReacts 0] init) =
   [(0, Report \<lparr> rep_errors =
             [\<lparr> cir_type = ''problem_type_error'',
                cir_message = ''FlowError: Timed out after waiting 3000ms'',
                cir_pos = \<lparr> pos_line = 0, pos_ch = 0 \<rparr> \<rparr>] \<rparr>)]"
  using timeout_reported_failures_propagated [of "posix_resolve ''/home/user''"
      "''/project/a.js''"
      "\<lparr> err_name = ''SyntaxError'', err_text = ''Unexpected end of JSON input'' \<rparr>"
      init "''/project''" sample_parse throws_on_report "''flow: ''" 2]
    timeout_reported_failures_propagated [of "posix_resolve ''/home/user''"
      "''/project/a.js''" "\<lparr> err_name = ''Error'', err_text = ''spawn EACCES'' \<rparr>"
      init "''/project''" sample_parse throws_on_report "''flow: ''" 2]
  by (simp add: init_def sample_parse_def Object_prototype_def del: run_Cons)

section \<open>The timeout\<close>

lemma list_all_update:
  "list_all P xs \<Longrightarrow> P y \<Longrightarrow> list_all P (xs[p := y])"
  using set_update_subset_insert [of xs p y] by (auto simp: list_all_iff)

lemma timer_race_step:
  "timeoutID iv \<in> {None, Some FLOW_TIMEOUT} \<Longrightarrow>
   timeoutID (race_step parse ev iv) \<in> {None, Some FLOW_TIMEOUT}"
proof (cases ev)
  case Timer
  then show ?thesis by (simp add: on_timeout_def split: option.splits)
next
  case (Child cev)
  assume "timeoutID iv \<in> {None, Some FLOW_TIMEOUT}"
  with Child show ?thesis
    by (cases cev)
       (auto simp: on_spawn_callback_def Let_def split: sum.splits callback_args.splits)
qed

lemma timers_step:
  assumes ok: "table_ok s"
      and t: "list_all (\<lambda>iv. timeoutID iv \<in> {None, Some FLOW_TIMEOUT}) (invocations s)"
  shows "list_all (\<lambda>iv. timeoutID iv \<in> {None, Some FLOW_TIMEOUT})
           (invocations (step resolve parse throws ev s))"
proof -
  from t have nth: "timeoutID (invocations s ! p) \<in> {None, Some FLOW_TIMEOUT}"
    if "p < length (invocations s)" for p
    using that by (simp add: list_all_length)
  show ?thesis
  proof (cases ev)
    case (Scan c b root f)
    show ?thesis
    proof (cases "c \<and> b")
      case False
      with Scan t show ?thesis by (simp add: scan_immediate)
    next
      case True
      then have ev: "ev = Scan True True root f" using Scan by simp
      show ?thesis
      proof (cases "getFlowResults s root")
        case None
        with t show ?thesis
          unfolding ev scan_starts [OF None] by (simp add: start_invocation_def)
      next
        case (Some v)
        show ?thesis
        proof (cases v)
          case (Promise p)
          with Some have slot: "getFlowResults s root = Some (Promise p)" by simp
          with ok have "p < length (invocations s)"
            unfolding table_ok_def by blast
          from nth [OF this] t show ?thesis
            unfolding ev scan_joins [OF ok slot] by (simp add: list_all_update)
        next
          case Inherited
          with Some have "getFlowResults s root = Some Inherited" by simp
          with t show ?thesis
            unfolding ev by (simp add: scan_inherited)
        qed
      qed
    qed
  next
    case (Inv p rev)
    show ?thesis
    proof (cases "p < length (invocations s)")
      case True
      from timer_race_step [OF nth [OF True]] t Inv True show ?thesis
        by (simp add: step.simps list_all_update)
    next
      case False
      with Inv t show ?thesis by (simp add: step.simps)
    qed
  next
    case (PromiseReacts p)
    show ?thesis
    proof (cases "p < length (invocations s) \<and> \<not> reacted (invocations s ! p)
                  \<and> promise_state (invocations s ! p) \<noteq> None")
      case False
      with PromiseReacts t show ?thesis by (simp add: step.simps react_idle)
    next
      case True
      then obtain out where out: "promise_state (invocations s ! p) = Some out" by auto
      from True nth t PromiseReacts show ?thesis
        by (simp add: step.simps react_fires [OF _ _ out] list_all_update)
    qed
  qed
qed

lemma timers_run:
  assumes "table_ok s"
      and "list_all (\<lambda>iv. timeoutID iv \<in> {None, Some FLOW_TIMEOUT}) (invocations s)"
  shows "list_all (\<lambda>iv. timeoutID iv \<in> {None, Some FLOW_TIMEOUT})
           (invocations (run resolve parse throws evs s))"
  using assms
proof (induction evs arbitrary: s)
  case Nil
  then show ?case by simp
next
  case (Cons ev evs)
  show ?case
    unfolding run_Cons
    by (rule Cons.IH [OF table_ok_step [OF Cons.prems(1)] timers_step [OF Cons.prems]])
qed

text \<open>
  Claim C9, as amended. The timeout is the constant \<open>FLOW_TIMEOUT\<close> of the module,
  3000 ms: \<open>getFlowResult\<close> takes the project root and nothing else, every invocation
  it starts arms its timer with 3000 ms, and in every state the module can reach
  each invocation has either no pending timer or one of 3000 ms.
\<close>

theorem timeout_is_the_constant:
  "FLOW_TIMEOUT = 3000
   \<and> (getFlowResults s key = None \<longrightarrow>
        fst (getFlowResult key s) = Promise (length (invocations s))
        \<and> timeoutID (invocations (snd (getFlowResult key s)) ! length (invocations s)) =
            Some 3000)
   \<and> (\<forall>p < length (invocations (run resolve parse throws evs init)).
        timeoutID (invocations (run resolve parse throws evs init) ! p) = None
        \<or> timeoutID (invocations (run resolve parse throws evs init) ! p) = Some 3000)"
proof (intro conjI impI)
  show "FLOW_TIMEOUT = 3000" by (simp add: FLOW_TIMEOUT_def)
  assume none: "getFlowResults s key = None"
  then show "fst (getFlowResult key s) = Promise (length (invocations s))"
    by (simp add: getFlowResult_def)
  from none
  show "timeoutID (invocations (snd (getFlowResult key s)) ! length (invocations s)) =
          Some 3000"
    by (simp add: getFlowResult_def start_invocation_def FLOW_TIMEOUT_def)
next
  have "list_all (\<lambda>iv. timeoutID iv \<in> {None, Some FLOW_TIMEOUT})
          (invocations (run resolve parse throws evs init))"
    by (rule timers_run [OF table_ok_init]) (simp add: init_def)
  then show "\<forall>p < length (invocations (run resolve parse throws evs init)).
        timeoutID (invocations (run resolve parse throws evs init) ! p) = None
        \<or> timeoutID (invocations (run resolve parse throws evs init) ! p) = Some 3000"
    by (simp add: list_all_length FLOW_TIMEOUT_def)
qed

theorem timeout_is_the_constant_witness:
  "timeoutID (invocations (snd (getFlowResult ''/project'' init)) ! 0) = Some 3000"
  using timeout_is_the_constant [of init "''/project''"]
  by (simp add: init_def getFlowResult_def Object_prototype_def)

text \<open>
  Claim C9 as stated fails: the coalescer of the spec, asked for a timeout of 5000 ms,
  arms a timer of 5000 ms; \<open>getFlowResult\<close> has no such parameter and arms 3000 ms.
\<close>

theorem timeout_parameter_counterexample:
  "timeoutID (invocations (snd (spec_invoke ''/project'' 5000 init)) ! 0) = Some 5000
   \<and> timeoutID (invocations (snd (getFlowResult ''/project'' init)) ! 0) = Some 3000
   \<and> snd (getFlowResult ''/project'' init) \<noteq> snd (spec_invoke ''/project'' 5000 init)"
proof -
  have a: "timeoutID (invocations (snd (spec_invoke ''/project'' 5000 init)) ! 0) = Some 5000"
    by (simp add: spec_invoke_def init_def start_invocation_def Object_prototype_def)
  have b: "timeoutID (invocations (snd (getFlowResult ''/project'' init)) ! 0) = Some 3000"
    by (simp add: getFlowResult_def init_def start_invocation_def FLOW_TIMEOUT_def
          Object_prototype_def)
  from a b have "snd (getFlowResult ''/project'' init) \<noteq> snd (spec_invoke ''/project'' 5000 init)"
    by auto
  with a b show ?thesis by simp
qed

section \<open>How often a callback is called\<close>

lemma count_concat_update:
  "p < length xs \<Longrightarrow>
   count_list (concat (map f (xs[p := y]))) c + count_list (f (xs ! p)) c =
   count_list (concat (map f xs)) c + count_list (f y) c"
proof (induction xs arbitrary: p)
  case Nil
  then show ?case by simp
next
  case (Cons x xs)
  then show ?case by (cases p) simp_all
qed

lemma pending_update:
  assumes "p < length (invocations s)"
  shows "count_list (pending (s\<lparr> invocations := (invocations s)[p := iv] \<rparr>)) c
         + count_list (if reacted (invocations s ! p) then []
                       else map fst (waiters (invocations s ! p))) c =
         count_list (pending s) c
         + count_list (if reacted iv then [] else map fst (waiters iv)) c"
  unfolding pending_def
  using count_concat_update [OF assms,
      of "\<lambda>iv. if reacted iv then [] else map fst (waiters iv)" iv c]
  by simp

lemma pending_fields [simp]:
  "pending (s\<lparr> calls := n \<rparr>) = pending s"
  "pending (s\<lparr> callbacks := cs \<rparr>) = pending s"
  "pending (s\<lparr> getFlowResults := t \<rparr>) = pending s"
  by (simp_all add: pending_def)

lemma handler_calls_returns_all:
  "concat (map (handler_calls resolve returns out) ws) =
     map (\<lambda>(callback, fullPath). (callback, report_outcome resolve fullPath out)) ws"
  by (induction ws) (simp_all add: handler_calls_returns split_def)

text \<open>The only keys that read as an inherited value are the inherited names.\<close>

lemma inherited_step:
  assumes "\<forall>root. getFlowResults s root = Some Inherited \<longrightarrow> root \<in> set Object_prototype"
  shows "\<forall>root. getFlowResults (step resolve parse throws ev s) root = Some Inherited \<longrightarrow>
           root \<in> set Object_prototype"
proof (cases ev)
  case (Scan c b projectRoot f)
  with assms show ?thesis
    by (auto simp: step.simps scanFileWithFlow_def getFlowResult_def attach_def call_back_def
          Let_def split: option.splits table_value.splits if_splits)
next
  case (Inv p rev)
  with assms show ?thesis by (simp add: step.simps)
next
  case (PromiseReacts p)
  with assms show ?thesis
    by (auto simp: step.simps react_def Let_def reactions_fields
          split: option.splits if_splits)
qed

text \<open>
  When the callbacks return and no call reaches \<open>getFlowResult\<close> with an inherited
  name, a step keeps the count of the calls of every callback.
\<close>

lemma once_step:
  assumes ok: "table_ok s" and once: "once s"
      and inh: "\<forall>root. getFlowResults s root = Some Inherited \<longrightarrow> root \<in> set Object_prototype"
      and plain: "plain ev"
  shows "once (step resolve parse returns ev s)"
proof -
  from once have inv: "count_list (map fst (callbacks s)) cb + count_list (pending s) cb =
        (if cb < calls s then 1 else 0)" for cb
    unfolding once_def by blast
  show ?thesis
  proof (cases ev)
    case (Scan c b root f)
    show ?thesis
    proof (cases "c \<and> b")
      case False
      show ?thesis
        unfolding once_def Scan scan_immediate [OF False]
        using inv by (auto simp: less_Suc_eq)
    next
      case True
      then have ev: "ev = Scan True True root f" using Scan by simp
      from plain True Scan have root: "root \<notin> set Object_prototype" by simp
      show ?thesis
      proof (cases "getFlowResults s root")
        case None
        show ?thesis
          unfolding once_def ev scan_starts [OF None]
          using inv by (auto simp: pending_def start_invocation_def less_Suc_eq)
      next
        case (Some v)
        with inh root obtain p where slot: "getFlowResults s root = Some (Promise p)"
          by (cases v) auto
        from ok slot have p: "p < length (invocations s)" "\<not> reacted (invocations s ! p)"
          unfolding table_ok_def by blast+
        show ?thesis
          unfolding once_def ev scan_joins [OF ok slot]
        proof
          fix cb
          let ?iv = "(invocations s ! p)\<lparr> waiters := waiters (invocations s ! p) @ [(calls s, f)] \<rparr>"
          from pending_update [OF p(1), of ?iv cb] p(2) inv [of cb]
          show "count_list (map fst (callbacks (s\<lparr> calls := Suc (calls s),
                   invocations := (invocations s)[p := ?iv] \<rparr>))) cb
                + count_list (pending (s\<lparr> calls := Suc (calls s),
                   invocations := (invocations s)[p := ?iv] \<rparr>)) cb =
                (if cb < calls (s\<lparr> calls := Suc (calls s),
                   invocations := (invocations s)[p := ?iv] \<rparr>) then 1 else 0)"
            by (auto simp: pending_def less_Suc_eq split: if_splits)
        qed
      qed
    qed
  next
    case (Inv p rev)
    have "pending (step resolve parse returns ev s) = pending s"
      unfolding Inv by (simp add: step.simps pending_def map_update_same)
    moreover have "callbacks (step resolve parse returns ev s) = callbacks s"
      "calls (step resolve parse returns ev s) = calls s"
      unfolding Inv by (simp_all add: step.simps)
    ultimately show ?thesis using once by (simp add: once_def)
  next
    case (PromiseReacts p)
    show ?thesis
    proof (cases "p < length (invocations s) \<and> \<not> reacted (invocations s ! p)
                  \<and> promise_state (invocations s ! p) \<noteq> None")
      case False
      with PromiseReacts once show ?thesis by (simp add: step.simps react_idle)
    next
      case True
      then obtain out where out: "promise_state (invocations s ! p) = Some out" by auto
      from True have p: "p < length (invocations s)" "\<not> reacted (invocations s ! p)" by auto
      have fst_map: "fst \<circ> (\<lambda>(callback, fullPath).
              (callback, report_outcome resolve fullPath out)) = fst"
        by (auto simp: fun_eq_iff)
      show ?thesis
        unfolding once_def PromiseReacts step.simps react_fires [OF p out]
          handler_calls_returns_all
      proof
        fix cb
        let ?iv = "(invocations s ! p)\<lparr> reacted := True \<rparr>"
        from pending_update [OF p(1), of ?iv cb] p(2) inv [of cb]
        show "count_list (map fst (callbacks (s\<lparr> getFlowResults :=
                   (getFlowResults s)(inv_root (invocations s ! p) := None),
                 invocations := (invocations s)[p := ?iv],
                 callbacks := callbacks s @ map (\<lambda>(callback, fullPath).
                    (callback, report_outcome resolve fullPath out))
                    (waiters (invocations s ! p)) \<rparr>))) cb
              + count_list (pending (s\<lparr> getFlowResults :=
                   (getFlowResults s)(inv_root (invocations s ! p) := None),
                 invocations := (invocations s)[p := ?iv],
                 callbacks := callbacks s @ map (\<lambda>(callback, fullPath).
                    (callback, report_outcome resolve fullPath out))
                    (waiters (invocations s ! p)) \<rparr>)) cb =
              (if cb < calls (s\<lparr> getFlowResults :=
                   (getFlowResults s)(inv_root (invocations s ! p) := None),
                 invocations := (invocations s)[p := ?iv],
                 callbacks := callbacks s @ map (\<lambda>(callback, fullPath).
                    (callback, report_outcome resolve fullPath out))
                    (waiters (invocations s ! p)) \<rparr>) then 1 else 0)"
          by (simp add: fst_map pending_def split: if_splits)
      qed
    qed
  qed
qed

lemma once_init: "once init"
  by (simp add: once_def init_def pending_def)

lemma inherited_init:
  "\<forall>root. getFlowResults init root = Some Inherited \<longrightarrow> root \<in> set Object_prototype"
  by (simp add: init_def)

lemma once_run:
  assumes "table_ok s" and "once s"
      and "\<forall>root. getFlowResults s root = Some Inherited \<longrightarrow> root \<in> set Object_prototype"
      and "list_all plain evs"
  shows "once (run resolve parse returns evs s)
     \<and> (\<forall>root. getFlowResults (run resolve parse returns evs s) root = Some Inherited \<longrightarrow>
           root \<in> set Object_prototype)"
  using assms
proof (induction evs arbitrary: s)
  case Nil
  then show ?case by simp
next
  case (Cons ev evs)
  from Cons.prems(4) have ev: "plain ev" and evs: "list_all plain evs" by simp_all
  show ?case
    unfolding run_Cons
    by (rule Cons.IH [OF table_ok_step [OF Cons.prems(1)]
          once_step [OF Cons.prems(1,2,3) ev] inherited_step [OF Cons.prems(3)] evs])
qed

text \<open>
  When every callback returns and no call reaches \<open>getFlowResult\<close> with an inherited
  name as its project root (\<open>plain\<close>), the callbacks are called exactly once. In
  every state \<open>s\<close> that the module can then reach, every callback handed to
  \<open>scanFileWithFlow\<close> so far has been called exactly once, or has not been called and
  waits, once, for a promise whose handlers have not run; no callback was called
  twice. Path by path: without a configuration the callback is called at once with
  the empty report; with a configuration and without the binary it is called at once
  with the report that asks for the installation; otherwise it is not called yet and
  waits; and when the handlers of a settled promise run, every callback that waits
  for it is called, with \<open>report_outcome\<close> of the outcome (the mapped report, the
  timeout report, or the error), and has then been called exactly once.
\<close>

theorem callback_exactly_once:
  assumes "s = run resolve parse returns evs init"
      and "list_all plain evs"
  shows "count_list (map fst (callbacks s)) cb + count_list (pending s) cb =
           (if cb < calls s then 1 else 0)
     \<and> (\<not> hasFlowConfig \<longrightarrow>
          callbacks (step resolve parse returns (Scan hasFlowConfig hasFlowBin root f) s) =
            callbacks s @ [(calls s, Report \<lparr> rep_errors = [] \<rparr>)])
     \<and> (hasFlowConfig \<and> \<not> hasFlowBin \<longrightarrow>
          callbacks (step resolve parse returns (Scan hasFlowConfig hasFlowBin root f) s) =
            callbacks s @ [(calls s, Report no_flow_bin_report)])
     \<and> (hasFlowConfig \<and> hasFlowBin \<and> root \<notin> set Object_prototype \<longrightarrow>
          callbacks (step resolve parse returns (Scan hasFlowConfig hasFlowBin root f) s) =
            callbacks s
          \<and> count_list
               (pending (step resolve parse returns (Scan hasFlowConfig hasFlowBin root f) s))
               (calls s) = 1)
     \<and> (p < length (invocations s) \<and> \<not> reacted (invocations s ! p)
          \<and> promise_state (invocations s ! p) = Some out \<longrightarrow>
          callbacks (step resolve parse returns (PromiseReacts p) s) =
            callbacks s @
            map (\<lambda>(callback, fullPath). (callback, report_outcome resolve fullPath out))
              (waiters (invocations s ! p))
          \<and> (\<forall>w \<in> set (waiters (invocations s ! p)).
                count_list (map fst (callbacks (step resolve parse returns (PromiseReacts p) s)))
                  (fst w) = 1))"
proof -
  have ok: "table_ok s"
    unfolding assms by (rule table_ok_run [OF table_ok_init])
  note reach = once_run [OF table_ok_init once_init inherited_init assms(2),
      of resolve parse, folded assms(1)]
  from reach have once: "once s" by simp
  from reach have inh: "\<forall>root. getFlowResults s root = Some Inherited \<longrightarrow>
      root \<in> set Object_prototype"
    by simp
  have next_once: "once (step resolve parse returns ev s)" if "plain ev" for ev
    by (rule once_step [OF ok once inh that])
  have inv: "count_list (map fst (callbacks s)) cb + count_list (pending s) cb =
           (if cb < calls s then 1 else 0)" for cb
    using once unfolding once_def by blast
  have absent: "callbacks (step resolve parse returns (Scan hasFlowConfig hasFlowBin root f) s) =
            callbacks s @ [(calls s, Report \<lparr> rep_errors = [] \<rparr>)]"
    if "\<not> hasFlowConfig"
    using that by (simp add: scan_immediate)
  have no_bin: "callbacks (step resolve parse returns (Scan hasFlowConfig hasFlowBin root f) s) =
            callbacks s @ [(calls s, Report no_flow_bin_report)]"
    if "hasFlowConfig \<and> \<not> hasFlowBin"
    using that by (simp add: scan_immediate)
  have waits: "callbacks (step resolve parse returns (Scan hasFlowConfig hasFlowBin root f) s) =
            callbacks s
          \<and> count_list
               (pending (step resolve parse returns (Scan hasFlowConfig hasFlowBin root f) s))
               (calls s) = 1"
    if both: "hasFlowConfig \<and> hasFlowBin \<and> root \<notin> set Object_prototype"
  proof -
    let ?s = "step resolve parse returns (Scan hasFlowConfig hasFlowBin root f) s"
    have same: "callbacks ?s = callbacks s"
    proof (cases "getFlowResults s root")
      case None
      with both show ?thesis by (simp add: scan_starts)
    next
      case (Some v)
      with inh both obtain q where "getFlowResults s root = Some (Promise q)"
        by (cases v) auto
      with both show ?thesis by (simp add: scan_joins [OF ok])
    qed
    have "calls ?s = Suc (calls s)" by (simp add: calls_step)
    moreover from both have "plain (Scan hasFlowConfig hasFlowBin root f)" by simp
    note next_once [OF this]
    ultimately
    have "count_list (map fst (callbacks ?s)) (calls s) + count_list (pending ?s) (calls s) = 1"
      unfolding once_def by simp
    moreover from inv [of "calls s"] have "count_list (map fst (callbacks s)) (calls s) = 0"
      by simp
    ultimately show ?thesis using same by simp
  qed
  have settles: "callbacks (step resolve parse returns (PromiseReacts p) s) =
            callbacks s @
            map (\<lambda>(callback, fullPath). (callback, report_outcome resolve fullPath out))
              (waiters (invocations s ! p))
          \<and> (\<forall>w \<in> set (waiters (invocations s ! p)).
                count_list (map fst (callbacks (step resolve parse returns (PromiseReacts p) s)))
                  (fst w) = 1)"
    if p: "p < length (invocations s) \<and> \<not> reacted (invocations s ! p)
          \<and> promise_state (invocations s ! p) = Some out"
  proof -
    let ?s = "step resolve parse returns (PromiseReacts p) s"
    from p have cbs: "callbacks ?s = callbacks s @
            map (\<lambda>(callback, fullPath). (callback, report_outcome resolve fullPath out))
              (waiters (invocations s ! p))"
      by (simp add: step.simps react_fires handler_calls_returns_all)
    have "count_list (map fst (callbacks ?s)) (fst w) = 1"
      if w: "w \<in> set (waiters (invocations s ! p))" for w
    proof -
      have "map fst (callbacks ?s) =
                 map fst (callbacks s) @ map fst (waiters (invocations s ! p))"
        by (auto simp: cbs)
      moreover from w have "fst w \<in> set (map fst (waiters (invocations s ! p)))" by simp
      ultimately have "fst w \<in> set (map fst (callbacks ?s))" by simp
      then have "count_list (map fst (callbacks ?s)) (fst w) \<noteq> 0"
        by (simp add: count_list_0_iff)
      moreover have "plain (PromiseReacts p)" by simp
      note next_once [OF this]
      then have "count_list (map fst (callbacks ?s)) (fst w) + count_list (pending ?s) (fst w) \<le> 1"
        unfolding once_def by simp
      ultimately show ?thesis by simp
    qed
    with cbs show ?thesis by blast
  qed
  from inv absent no_bin waits settles show ?thesis by blast
qed

theorem callback_exactly_once_witness:
  "map fst (callbacks (run (posix_resolve ''/home/user'') sample_parse returns
     [Scan False False ''/plain'' ''/plain/a.js'',
      Scan True False ''/new'' ''/new/a.js'',
      Scan True True ''/project'' ''/project/a.js'',
      Inv 0 Timer,
      PromiseReacts 0] init)) = [0, 1, 2]
   \<and> pending (run (posix_resolve ''/home/user'') sample_parse returns
     [Scan False False ''/plain'' ''/plain/a.js'',
      Scan True False ''/new'' ''/new/a.js'',
      Scan True True ''/project'' ''/project/a.js'',
      Inv 0 Timer,
      PromiseReacts 0] init) = []"
  using callback_exactly_once [where
      s = "run (posix_resolve ''/home/user'') sample_parse returns
         [Scan False False ''/plain'' ''/plain/a.js'',
          Scan True False ''/new'' ''/new/a.js'',
          Scan True True ''/project'' ''/project/a.js'',
          Inv 0 Timer] init"
      and resolve = "posix_resolve ''/home/user''" and parse = sample_parse
      and evs = "[Scan False False ''/plain'' ''/plain/a.js'',
          Scan True False ''/new'' ''/new/a.js'',
          Scan True True ''/project'' ''/project/a.js'',
          Inv 0 Timer]"
      and cb = 2 and hasFlowConfig = False and hasFlowBin = False and root = "''/plain''"
      and f = "''/plain/a.js''" and p = 0 and out = "Rejected TimeoutError"]
  by (simp add: step.simps scanFileWithFlow_def getFlowResult_def attach_def init_def
        start_invocation_def on_timeout_def promise_state_def react_def call_back_def
        pending_def handlers_def returns_def Object_prototype_def)

text \<open>
  Claim C10 does not hold of the code. The handler of \<open>.catch\<close> (line 156) is chained
  after the handler of \<open>.then\<close> (line 152), so it also receives what the callback
  throws when line 154 calls it: when the promise is fulfilled with \<open>res\<close> and the
  callback of a caller throws \<open>err\<close> at the report, the handlers call that callback a
  second time, with \<open>report_outcome\<close> of the rejection by \<open>err\<close>: the error, or the
  timeout report when the name of \<open>err\<close> is \<open>TimeoutError\<close>. The claim demands one call.
\<close>

theorem throwing_callback_called_twice:
  assumes "throws callback (Report (createCodeInspectionReport resolve fullPath res)) = Some err"
  shows "callbacks (handlers resolve throws callback fullPath (Fulfilled res) s) =
           callbacks s @
           [(callback, Report (createCodeInspectionReport resolve fullPath res)),
            (callback, if err_name err = ''TimeoutError'' then Report timeout_report
                       else Err err)]"
  using assms by (simp add: handlers_def report_outcome_def call_back_def)

text \<open>
  One call for a project, whose child writes a result without findings and closes; the
  callback throws when it is handed a report. It is called twice: with the report, and
  with the error it threw. And one call with the project root \<open>constructor\<close>, which
  \<open>getFlowResult\<close> answers with an inherited value: the callback is never called,
  whatever happens afterwards.
\<close>

theorem throwing_callback_called_twice_witness:
  "callbacks (run (posix_resolve ''/home/user'') sample_parse throws_on_report
     [Scan True True ''/project'' ''/project/a.js'',
      Inv 0 (Child (StdoutData ''{\"errors\":[]}'')),
      Inv 0 (Child (CloseEvent 0)),
      PromiseReacts 0] init) =
     [(0, Report \<lparr> rep_errors = [] \<rparr>),
      (0, Err \<lparr> err_name = ''Error'', err_text = ''callback failed'' \<rparr>)]
   \<and> callbacks (run (posix_resolve ''/home/user'') sample_parse returns
     [Scan True True ''constructor'' ''constructor/a.js'',
      Inv 0 Timer,
      Inv 0 (Child (CloseEvent 0)),
      PromiseReacts 0] init) = []
   \<and> calls (run (posix_resolve ''/home/user'') sample_parse returns
     [Scan True True ''constructor'' ''constructor/a.js'',
      Inv 0 Timer,
      Inv 0 (Child (CloseEvent 0)),
      PromiseReacts 0] init) = 1"
  using throwing_callback_called_twice [where throws = throws_on_report and callback = 0
      and resolve = "posix_resolve ''/home/user''" and fullPath = "''/project/a.js''"
      and res = "\<lparr> fr_errors = [] \<rparr>"
      and err = "\<lparr> err_name = ''Error'', err_text = ''callback failed'' \<rparr>"
      and s = "run (posix_resolve ''/home/user'') sample_parse throws_on_report
         [Scan True True ''/project'' ''/project/a.js'',
          Inv 0 (Child (StdoutData ''{\"errors\":[]}'')),
          Inv 0 (Child (CloseEvent 0))] init"]
  by (simp add: step.simps scanFileWithFlow_def getFlowResult_def attach_def init_def
        start_invocation_def on_spawn_callback_def promise_state_def react_def call_back_def
        handlers_def throws_on_report_def returns_def Object_prototype_def spawnWrapper_def
        sample_parse_def report_outcome_def createCodeInspectionReport_def Let_def)
end
